theory Spec2Isabelle
  imports Complex_Main
begin

section \<open>The banded linear system\<close>

text \<open>
  The model follows \<^verbatim>\<open>cubic_spline.hpp\<close>. A \<^verbatim>\<open>double\<close> is a real number: every
  statement below is about the arithmetic of the code carried out exactly, without
  rounding. An \<^verbatim>\<open>int\<close> is an unbounded integer: sizes and indices are assumed to stay
  below the range of the machine type. A division by zero has no meaning in this model
  (the code would produce an infinity or a NaN); the theorems about the solver state
  that the divisors are not zero.

  Both classes have a member \<^verbatim>\<open>N\<close>, so the members carry the prefix of their class
  (\<open>bs_N\<close>, \<open>spl_N\<close>). The backing store of a \<^verbatim>\<open>BandedSystem\<close> lives in an explicit heap: an address is an
  index into a list of cells, a cell holds an array or is free.

  Arrays and matrices are lists, read with \<open>xs ! i\<close> and written with \<open>xs[i := v]\<close>. Like
  the code, the model checks no index of a \<^verbatim>\<open>BandedSystem\<close>; the behaviour of the code is
  undefined out of range, and the theorems are about accesses in range. Where Eigen
  asserts (a negative size, a column or a row that does not exist) the model returns an
  error value.
\<close>

datatype error = BadArrayLength | NegativeSize | NullPointer | IndexOutOfRange

type_synonym heap = "real list option list"

record BandedSystem =
  bs_N :: int
  bs_lowerBw :: int
  bs_upperBw :: int
  bs_ptrData :: "nat option"

text \<open>\<^verbatim>\<open>destroy\<close>: \<^verbatim>\<open>delete[]\<close> of a pointer that is not null, which is then set to null.\<close>

definition destroy :: "BandedSystem \<Rightarrow> heap \<Rightarrow> BandedSystem \<times> heap" where
  "destroy A h =
     (case bs_ptrData A of
        None \<Rightarrow> (A, h)
      | Some a \<Rightarrow> (A\<lparr>bs_ptrData := None\<rparr>, h[a := None]))"

text \<open>
  \<^verbatim>\<open>create\<close>: destroys first, then allocates \<^verbatim>\<open>N * (lowerBw + upperBw + 1)\<close> doubles in a
  fresh cell and fills them with zero. \<^verbatim>\<open>new double[n]\<close> throws for a negative length.
\<close>

definition create :: "int \<Rightarrow> int \<Rightarrow> int \<Rightarrow> BandedSystem \<Rightarrow> heap \<Rightarrow> error + BandedSystem \<times> heap" where
  "create n p q A h =
     (let (A1, h1) = destroy A h;
          A2 = A1\<lparr>bs_N := n, bs_lowerBw := p, bs_upperBw := q\<rparr>;
          actualSize = bs_N A2 * (bs_lowerBw A2 + bs_upperBw A2 + 1)
      in if actualSize < 0 then Inl BadArrayLength
         else Inr (A2\<lparr>bs_ptrData := Some (length h1)\<rparr>,
                   h1 @ [Some (replicate (nat actualSize) 0)]))"

text \<open>The array a \<^verbatim>\<open>BandedSystem\<close> points to, when its pointer is not null and the cell is live.\<close>

definition deref :: "heap \<Rightarrow> BandedSystem \<Rightarrow> real list option" where
  "deref h A =
     (case bs_ptrData A of
        None \<Rightarrow> None
      | Some a \<Rightarrow> if a < length h then h ! a else None)"

text \<open>
  The methods below work on the array behind \<^verbatim>\<open>ptrData\<close>, passed and returned as a list.
  \<^verbatim>\<open>operator()(i, j)\<close> is \<^verbatim>\<open>ptrData[(i - j + upperBw) * N + j]\<close>, with no check: \<open>bs_at\<close>
  reads through it, \<open>bs_put\<close> writes through it.
\<close>

definition offset :: "BandedSystem \<Rightarrow> int \<Rightarrow> int \<Rightarrow> int" where
  "offset A i j = (i - j + bs_upperBw A) * bs_N A + j"

definition bs_at :: "BandedSystem \<Rightarrow> real list \<Rightarrow> int \<Rightarrow> int \<Rightarrow> real" where
  "bs_at A d i j = d ! nat (offset A i j)"

definition bs_put :: "BandedSystem \<Rightarrow> real list \<Rightarrow> int \<Rightarrow> int \<Rightarrow> real \<Rightarrow> real list" where
  "bs_put A d i j v = d[nat (offset A i j) := v]"

definition reset :: "BandedSystem \<Rightarrow> real list \<Rightarrow> real list" where
  "reset A d =
     (let n = nat (bs_N A * (bs_lowerBw A + bs_upperBw A + 1))
      in replicate (min n (length d)) 0 @ drop n d)"

subsection \<open>factorizeLU\<close>

text \<open>The body of the first inner loop: \<^verbatim>\<open>if (A(i,k) != 0.0) A(i,k) /= cVl\<close>.\<close>

definition scale_entry :: "BandedSystem \<Rightarrow> int \<Rightarrow> real \<Rightarrow> int \<Rightarrow> real list \<Rightarrow> real list" where
  "scale_entry A k cVl i d =
     (if bs_at A d i k \<noteq> 0 then bs_put A d i k (bs_at A d i k / cVl) else d)"

text \<open>The body of the innermost loop: \<^verbatim>\<open>if (A(i,k) != 0.0) A(i,j) -= A(i,k) * cVl\<close>.\<close>

definition update_entry :: "BandedSystem \<Rightarrow> int \<Rightarrow> int \<Rightarrow> real \<Rightarrow> int \<Rightarrow> real list \<Rightarrow> real list" where
  "update_entry A k j cVl i d =
     (if bs_at A d i k \<noteq> 0 then bs_put A d i j (bs_at A d i j - bs_at A d i k * cVl) else d)"

text \<open>The body of the loop over \<^verbatim>\<open>j\<close>.\<close>

definition update_col :: "BandedSystem \<Rightarrow> int \<Rightarrow> int \<Rightarrow> int \<Rightarrow> real list \<Rightarrow> real list" where
  "update_col A k iM j d =
     (let cVl = bs_at A d k j
      in if cVl \<noteq> 0 then fold (update_entry A k j cVl) [k + 1..iM] d else d)"

text \<open>The body of the loop over \<^verbatim>\<open>k\<close>.\<close>

definition factorize_step :: "BandedSystem \<Rightarrow> int \<Rightarrow> real list \<Rightarrow> real list" where
  "factorize_step A k d =
     (let iM = min (k + bs_lowerBw A) (bs_N A - 1);
          cVl = bs_at A d k k;
          d1 = fold (scale_entry A k cVl) [k + 1..iM] d;
          jM = min (k + bs_upperBw A) (bs_N A - 1)
      in fold (update_col A k iM) [k + 1..jM] d1)"

definition factorizeLU :: "BandedSystem \<Rightarrow> real list \<Rightarrow> real list" where
  "factorizeLU A d = fold (factorize_step A) [0..bs_N A - 2] d"

subsection \<open>solve and solveAdj\<close>

text \<open>
  The right-hand side is a matrix given by its rows; a row is the list of its entries.
  \<^verbatim>\<open>x -= a * y\<close> and \<^verbatim>\<open>x /= c\<close> on rows:
\<close>

definition row_sub :: "real \<Rightarrow> real list \<Rightarrow> real list \<Rightarrow> real list" where
  "row_sub a x y = map2 (\<lambda>u v. u - a * v) x y"

definition row_div :: "real list \<Rightarrow> real \<Rightarrow> real list" where
  "row_div x c = map (\<lambda>u. u / c) x"

text \<open>\<^verbatim>\<open>if (A(i,j) != 0.0) b.row(i) -= A(i,j) * b.row(j)\<close>, in both loops of \<^verbatim>\<open>solve\<close>.\<close>

definition elim_row :: "BandedSystem \<Rightarrow> real list \<Rightarrow> int \<Rightarrow> int \<Rightarrow> real list list \<Rightarrow> real list list" where
  "elim_row A d j i b =
     (if bs_at A d i j \<noteq> 0
      then b[nat i := row_sub (bs_at A d i j) (b ! nat i) (b ! nat j)] else b)"

definition solve_fwd :: "BandedSystem \<Rightarrow> real list \<Rightarrow> int \<Rightarrow> real list list \<Rightarrow> real list list" where
  "solve_fwd A d j b =
     (let iM = min (j + bs_lowerBw A) (bs_N A - 1)
      in fold (elim_row A d j) [j + 1..iM] b)"

definition solve_bwd :: "BandedSystem \<Rightarrow> real list \<Rightarrow> int \<Rightarrow> real list list \<Rightarrow> real list list" where
  "solve_bwd A d j b =
     (let b1 = b[nat j := row_div (b ! nat j) (bs_at A d j j)];
          iM = max 0 (j - bs_upperBw A)
      in fold (elim_row A d j) [iM..j - 1] b1)"

definition solve :: "BandedSystem \<Rightarrow> real list \<Rightarrow> real list list \<Rightarrow> real list list" where
  "solve A d b =
     fold (solve_bwd A d) (rev [0..bs_N A - 1]) (fold (solve_fwd A d) [0..bs_N A - 1] b)"

text \<open>\<^verbatim>\<open>if (A(j,i) != 0.0) b.row(i) -= A(j,i) * b.row(j)\<close>, in both loops of \<^verbatim>\<open>solveAdj\<close>.\<close>

definition elim_row_adj :: "BandedSystem \<Rightarrow> real list \<Rightarrow> int \<Rightarrow> int \<Rightarrow> real list list \<Rightarrow> real list list" where
  "elim_row_adj A d j i b =
     (if bs_at A d j i \<noteq> 0
      then b[nat i := row_sub (bs_at A d j i) (b ! nat i) (b ! nat j)] else b)"

definition solveAdj_fwd :: "BandedSystem \<Rightarrow> real list \<Rightarrow> int \<Rightarrow> real list list \<Rightarrow> real list list" where
  "solveAdj_fwd A d j b =
     (let b1 = b[nat j := row_div (b ! nat j) (bs_at A d j j)];
          iM = min (j + bs_upperBw A) (bs_N A - 1)
      in fold (elim_row_adj A d j) [j + 1..iM] b1)"

definition solveAdj_bwd :: "BandedSystem \<Rightarrow> real list \<Rightarrow> int \<Rightarrow> real list list \<Rightarrow> real list list" where
  "solveAdj_bwd A d j b =
     (let iM = max 0 (j - bs_lowerBw A)
      in fold (elim_row_adj A d j) [iM..j - 1] b)"

definition solveAdj :: "BandedSystem \<Rightarrow> real list \<Rightarrow> real list list \<Rightarrow> real list list" where
  "solveAdj A d b =
     fold (solveAdj_bwd A d) (rev [0..bs_N A - 1]) (fold (solveAdj_fwd A d) [0..bs_N A - 1] b)"

section \<open>The cubic spline\<close>

text \<open>
  An \<^verbatim>\<open>Eigen::Vector2d\<close> is a pair. A \<^verbatim>\<open>Matrix2Xd\<close> is the list of its columns, a
  \<^verbatim>\<open>MatrixX2d\<close> the list of its rows; \<^verbatim>\<open>transpose\<close> turns a column vector into a row and
  back.
\<close>

type_synonym Vector2d = "real \<times> real"

definition vadd :: "Vector2d \<Rightarrow> Vector2d \<Rightarrow> Vector2d" where
  "vadd u v = (fst u + fst v, snd u + snd v)"

definition vsub :: "Vector2d \<Rightarrow> Vector2d \<Rightarrow> Vector2d" where
  "vsub u v = (fst u - fst v, snd u - snd v)"

definition smul :: "real \<Rightarrow> Vector2d \<Rightarrow> Vector2d" where
  "smul a v = (a * fst v, a * snd v)"

definition squaredNorm :: "Vector2d \<Rightarrow> real" where
  "squaredNorm v = fst v * fst v + snd v * snd v"

definition dot :: "Vector2d \<Rightarrow> Vector2d \<Rightarrow> real" where
  "dot u v = fst u * fst v + snd u * snd v"

definition row_of :: "Vector2d \<Rightarrow> real list" where
  "row_of v = [fst v, snd v]"

definition col_of :: "real list \<Rightarrow> Vector2d" where
  "col_of r = (r ! 0, r ! 1)"

record CubicSpline =
  spl_N :: int
  spl_headP :: Vector2d
  spl_tailP :: Vector2d
  spl_A :: BandedSystem
  spl_b :: "real list list"

text \<open>
  \<^verbatim>\<open>setConditions\<close>. Eigen's \<^verbatim>\<open>resize\<close> asserts that the dimensions are not negative and
  leaves the entries without a value; the model fills them with zero, and every entry
  is written before it is read.
\<close>

definition setConditions ::
  "Vector2d \<Rightarrow> Vector2d \<Rightarrow> int \<Rightarrow> CubicSpline \<times> heap \<Rightarrow> error + CubicSpline \<times> heap" where
  "setConditions headPos tailPos pieceNum Sh =
     (let (S, h) = Sh;
          S1 = S\<lparr>spl_headP := headPos, spl_tailP := tailPos, spl_N := pieceNum\<rparr>
      in if spl_N S1 - 1 < 0 then Inl NegativeSize
         else let S2 = S1\<lparr>spl_b := replicate (nat (spl_N S1 - 1)) [0, 0]\<rparr>
              in case create (spl_N S2 - 1) 1 1 (spl_A S2) h of
                   Inl e \<Rightarrow> Inl e
                 | Inr (A', h') \<Rightarrow> Inr (S2\<lparr>spl_A := A'\<rparr>, h'))"

text \<open>The waypoints: \<^verbatim>\<open>X.col(0) = headP; X.col(N) = tailP; X.col(i) = inPs.col(i - 1)\<close>.\<close>

definition copy_inner :: "Vector2d list \<Rightarrow> int \<Rightarrow> error + Vector2d list \<Rightarrow> error + Vector2d list" where
  "copy_inner inPs i r =
     (case r of
        Inl e \<Rightarrow> Inl e
      | Inr X \<Rightarrow> if nat (i - 1) < length inPs then Inr (X[nat i := inPs ! nat (i - 1)])
                 else Inl IndexOutOfRange)"

definition waypoints :: "int \<Rightarrow> Vector2d \<Rightarrow> Vector2d \<Rightarrow> Vector2d list \<Rightarrow> error + Vector2d list" where
  "waypoints n headP tailP inPs =
     (if n + 1 < 0 then Inl NegativeSize
      else let X = replicate (nat (n + 1)) (0, 0)
           in if \<not> 0 < length X then Inl IndexOutOfRange
              else let X1 = X[0 := headP]
                   in if \<not> (0 \<le> n \<and> nat n < length X1) then Inl IndexOutOfRange
                      else fold (copy_inner inPs) [1..n - 1] (Inr (X1[nat n := tailP])))"

text \<open>The body of the loop that fills the matrix and the right-hand side.\<close>

definition fill_row ::
  "BandedSystem \<Rightarrow> int \<Rightarrow> Vector2d list \<Rightarrow> int \<Rightarrow> real list \<times> real list list \<Rightarrow> real list \<times> real list list" where
  "fill_row A n X i db =
     (let (d, b) = db;
          d1 = bs_put A d i i 4;
          d2 = (if i = 0 then bs_put A d1 i (i + 1) 1
                else if i = n - 2 then bs_put A d1 i (i - 1) 1
                else bs_put A (bs_put A d1 i (i - 1) 1) i (i + 1) 1)
      in (d2, b[nat i := row_of (smul 3 (vsub (X ! nat (i + 2)) (X ! nat i)))]))"

text \<open>The coefficient matrix of segment \<^verbatim>\<open>i\<close>, given by its four columns.\<close>

definition coeffMat :: "Vector2d list \<Rightarrow> real list list \<Rightarrow> int \<Rightarrow> Vector2d list" where
  "coeffMat X D i =
     [vadd (vadd (smul 2 (vsub (X ! nat i) (X ! nat (i + 1)))) (col_of (D ! nat i)))
           (col_of (D ! nat (i + 1))),
      vsub (vsub (smul 3 (vsub (X ! nat (i + 1)) (X ! nat i))) (smul 2 (col_of (D ! nat i))))
           (col_of (D ! nat (i + 1))),
      col_of (D ! nat i),
      X ! nat i]"

text \<open>\<^verbatim>\<open>b.block(r, 0, 4, 2) = M.transpose()\<close> and \<^verbatim>\<open>b.block(r, 0, 4, 2).transpose()\<close>.\<close>

definition set_block :: "real list list \<Rightarrow> int \<Rightarrow> Vector2d list \<Rightarrow> real list list" where
  "set_block b r M =
     b[nat r := row_of (M ! 0), nat (r + 1) := row_of (M ! 1),
       nat (r + 2) := row_of (M ! 2), nat (r + 3) := row_of (M ! 3)]"

definition get_block :: "real list list \<Rightarrow> int \<Rightarrow> Vector2d list" where
  "get_block b r =
     [col_of (b ! nat r), col_of (b ! nat (r + 1)), col_of (b ! nat (r + 2)),
      col_of (b ! nat (r + 3))]"

text \<open>
  \<^verbatim>\<open>setInnerPoints\<close>. The array of the matrix is fetched once; a null or dangling pointer is
  an error value. The loops then run on the array and on \<^verbatim>\<open>b\<close>, and the factorized array is
  stored back.
\<close>

definition setInnerPoints :: "Vector2d list \<Rightarrow> CubicSpline \<times> heap \<Rightarrow> error + CubicSpline \<times> heap" where
  "setInnerPoints inPs Sh =
     (let (S, h) = Sh; n = spl_N S; A = spl_A S
      in case waypoints n (spl_headP S) (spl_tailP S) inPs of
           Inl e \<Rightarrow> Inl e
         | Inr X \<Rightarrow>
             (case deref h A of
                None \<Rightarrow> Inl NullPointer
              | Some d0 \<Rightarrow>
                  let (d1, b1) = fold (fill_row A n X) [0..n - 2] (d0, spl_b S);
                      d2 = factorizeLU A d1;
                      b2 = solve A d2 b1;
                      D = fold (\<lambda>i D. D[nat i := b2 ! nat (i - 1)]) [1..n - 1]
                            (replicate (nat (n + 1)) [0, 0]);
                      b3 = replicate (nat (n * 4)) [0, 0];
                      b4 = fold (\<lambda>i b. set_block b (i * 4) (coeffMat X D i)) [0..n - 1] b3
                  in Inr (S\<lparr>spl_b := b4\<rparr>, h[the (bs_ptrData A) := Some d2])))"

text \<open>
  Modelled from the spec: the curve container of \<^verbatim>\<open>cubic_curve.hpp\<close>, which is not among
  the sources at hand. A \<^verbatim>\<open>CubicPolynomial\<close> is built from a duration and a 2 by 4
  coefficient matrix, given here by its four columns; a \<^verbatim>\<open>CubicCurve\<close> is a sequence of them
  with \<^verbatim>\<open>clear\<close> and \<^verbatim>\<open>emplace_back\<close>.
\<close>

record CubicPolynomial =
  duration :: real
  coeffs :: "Vector2d list"

type_synonym CubicCurve = "CubicPolynomial list"

definition clear :: "CubicCurve \<Rightarrow> CubicCurve" where
  "clear curve = []"

definition emplace_back :: "CubicCurve \<Rightarrow> real \<Rightarrow> Vector2d list \<Rightarrow> CubicCurve" where
  "emplace_back curve dur M = curve @ [\<lparr>duration = dur, coeffs = M\<rparr>]"

definition getCurve :: "CubicSpline \<Rightarrow> CubicCurve \<Rightarrow> CubicCurve" where
  "getCurve S curve =
     fold (\<lambda>i c. emplace_back c 1 (get_block (spl_b S) (i * 4))) [0..spl_N S - 1] (clear curve)"

definition getStretchEnergy :: "CubicSpline \<Rightarrow> real" where
  "getStretchEnergy S =
     fold (\<lambda>i energy.
             let M = get_block (spl_b S) (i * 4); d = M ! 1; c = M ! 0
             in energy + (4 * squaredNorm c + 12 * squaredNorm d + 12 * dot d c))
       [0..spl_N S - 1] 0"

definition getCoeffs :: "CubicSpline \<Rightarrow> real list list" where
  "getCoeffs S = spl_b S"

text \<open>
  The polynomial of a segment with coefficient columns \<^verbatim>\<open>[d, c, b, a]\<close>, as the comment in
  \<^verbatim>\<open>getStretchEnergy\<close> writes it: \<^verbatim>\<open>p(s) = a + b*s + c*s^2 + d*s^3\<close>, and its derivative.
\<close>

definition position :: "Vector2d list \<Rightarrow> real \<Rightarrow> Vector2d" where
  "position M s =
     vadd (vadd (vadd (M ! 3) (smul s (M ! 2))) (smul (s * s) (M ! 1))) (smul (s * s * s) (M ! 0))"

definition velocity :: "Vector2d list \<Rightarrow> real \<Rightarrow> Vector2d" where
  "velocity M s =
     vadd (vadd (M ! 2) (smul (2 * s) (M ! 1))) (smul (3 * s * s) (M ! 0))"



section \<open>Notions for the statements and the proofs\<close>

text \<open>
  The index pairs of the band: both indices within the matrix, at most \<^verbatim>\<open>lowerBw\<close> below and
  at most \<^verbatim>\<open>upperBw\<close> above the diagonal. \<open>actualSize\<close> is the length \<^verbatim>\<open>create\<close> allocates.
\<close>

definition in_band :: "BandedSystem \<Rightarrow> int \<Rightarrow> int \<Rightarrow> bool" where
  "in_band A i j \<longleftrightarrow>
     0 \<le> i \<and> i < bs_N A \<and> 0 \<le> j \<and> j < bs_N A \<and> i - j \<le> bs_lowerBw A \<and> j - i \<le> bs_upperBw A"

definition actualSize :: "BandedSystem \<Rightarrow> int" where
  "actualSize A = bs_N A * (bs_lowerBw A + bs_upperBw A + 1)"

text \<open>
  A system as \<^verbatim>\<open>create\<close> leaves it: dimensions that are not negative and an array of the
  allocated length. \<open>entry\<close> is the matrix the array stands for: the stored value inside
  the band, zero outside.
\<close>

definition bs_wf :: "BandedSystem \<Rightarrow> real list \<Rightarrow> bool" where
  "bs_wf A d \<longleftrightarrow>
     0 \<le> bs_N A \<and> 0 \<le> bs_lowerBw A \<and> 0 \<le> bs_upperBw A \<and> int (length d) = actualSize A"

definition entry :: "BandedSystem \<Rightarrow> real list \<Rightarrow> int \<Rightarrow> int \<Rightarrow> real" where
  "entry A d i j = (if in_band A i j then bs_at A d i j else 0)"

text \<open>
  Strict diagonal dominance, by rows or by columns: the absolute value of each diagonal
  entry exceeds the sum of the absolute values of the other entries of its row (column).
\<close>

definition row_dominant :: "BandedSystem \<Rightarrow> real list \<Rightarrow> bool" where
  "row_dominant A d \<longleftrightarrow>
     (\<forall>i\<in>{0..<bs_N A}. (\<Sum>j\<in>{0..<bs_N A} - {i}. \<bar>entry A d i j\<bar>) < \<bar>entry A d i i\<bar>)"

definition col_dominant :: "BandedSystem \<Rightarrow> real list \<Rightarrow> bool" where
  "col_dominant A d \<longleftrightarrow>
     (\<forall>j\<in>{0..<bs_N A}. (\<Sum>i\<in>{0..<bs_N A} - {j}. \<bar>entry A d i j\<bar>) < \<bar>entry A d j j\<bar>)"

text \<open>
  A right-hand side of \<open>n\<close> rows and \<open>m\<close> columns, and what it means for such an \<open>X\<close> to
  solve \<open>A X = B\<close> and \<open>A\<^sup>T X = B\<close>, column by column.
\<close>

definition shape :: "nat \<Rightarrow> int \<Rightarrow> real list list \<Rightarrow> bool" where
  "shape m n b \<longleftrightarrow> int (length b) = n \<and> (\<forall>r\<in>set b. length r = m)"

definition is_solution :: "BandedSystem \<Rightarrow> real list \<Rightarrow> nat \<Rightarrow> real list list \<Rightarrow> real list list \<Rightarrow> bool" where
  "is_solution A d m X B \<longleftrightarrow>
     (\<forall>i\<in>{0..<bs_N A}. \<forall>c\<in>{0..<m}.
        (\<Sum>j\<in>{0..<bs_N A}. entry A d i j * X ! nat j ! c) = B ! nat i ! c)"

definition is_solution_adj :: "BandedSystem \<Rightarrow> real list \<Rightarrow> nat \<Rightarrow> real list list \<Rightarrow> real list list \<Rightarrow> bool" where
  "is_solution_adj A d m X B \<longleftrightarrow>
     (\<forall>i\<in>{0..<bs_N A}. \<forall>c\<in>{0..<m}.
        (\<Sum>j\<in>{0..<bs_N A}. entry A d j i * X ! nat j ! c) = B ! nat i ! c)"

text \<open>
  The explicit transpose of a banded system: the bandwidths change places, and the array
  holds at the place of \<open>(i, j)\<close> what the original holds at \<open>(j, i)\<close>. An offset \<open>k\<close> of
  the transposed array is the place of column \<open>k mod N\<close> and row
  \<open>k div N - lowerBw + k mod N\<close>.
\<close>

definition transpose_system :: "BandedSystem \<Rightarrow> BandedSystem" where
  "transpose_system A = A\<lparr>bs_lowerBw := bs_upperBw A, bs_upperBw := bs_lowerBw A\<rparr>"

definition transpose_data :: "BandedSystem \<Rightarrow> real list \<Rightarrow> real list" where
  "transpose_data A d =
     map (\<lambda>k. let j = int k mod bs_N A; i = int k div bs_N A - bs_lowerBw A + j
              in if in_band A j i then bs_at A d j i else 0)
       [0..<length d]"

text \<open>
  A fit is the two calls in order: \<^verbatim>\<open>setConditions\<close>, then \<^verbatim>\<open>setInnerPoints\<close>.
\<close>

definition fit ::
  "Vector2d \<Rightarrow> Vector2d \<Rightarrow> int \<Rightarrow> Vector2d list \<Rightarrow> CubicSpline \<times> heap \<Rightarrow> error + CubicSpline \<times> heap" where
  "fit headPos tailPos pieceNum inPs Sh =
     (case setConditions headPos tailPos pieceNum Sh of
        Inl e \<Rightarrow> Inl e
      | Inr Sh' \<Rightarrow> setInnerPoints inPs Sh')"

text \<open>
  A default-constructed \<^verbatim>\<open>CubicSpline\<close> on an empty heap: the pointer is null, the
  coefficient matrix is empty; the members without an initializer are written as zero.
\<close>

definition default_spline :: "CubicSpline \<times> heap" where
  "default_spline =
     (\<lparr>spl_N = 0, spl_headP = (0, 0), spl_tailP = (0, 0),
       spl_A = \<lparr>bs_N = 0, bs_lowerBw = 0, bs_upperBw = 0, bs_ptrData = None\<rparr>,
       spl_b = []\<rparr>, [])"

text \<open>
  The tangents \<open>D[0..N]\<close> as a fitted spline holds them: \<open>D[i]\<close> is the linear coefficient
  of segment \<open>i\<close>, and \<open>D[N]\<close> is zero.
\<close>

definition tangents :: "CubicSpline \<Rightarrow> real list list" where
  "tangents S =
     map (\<lambda>i. row_of (get_block (spl_b S) (i * 4) ! 2)) [0..spl_N S - 1] @ [[0, 0]]"

text \<open>
  The energy as the specification and the comment in \<^verbatim>\<open>getStretchEnergy\<close> state it: the sum
  over the segments of \<open>4 |c|\<^sup>2 + 12 |d|\<^sup>2 + 12 (c \<cdot> d)\<close>, with \<open>c\<close> the quadratic coefficient
  (column 1 of the block) and \<open>d\<close> the cubic one (column 0).
\<close>

definition stretch_energy_spec :: "CubicSpline \<Rightarrow> real" where
  "stretch_energy_spec S =
     (\<Sum>i\<leftarrow>[0..spl_N S - 1].
        let M = get_block (spl_b S) (i * 4); c = M ! 1; d = M ! 0
        in 4 * squaredNorm c + 12 * squaredNorm d + 12 * dot c d)"

text \<open>
  The heap after \<^verbatim>\<open>destroy\<close>, the number of live arrays of a heap, and what can be observed
  of a \<^verbatim>\<open>CubicSpline\<close>: its members and the array its matrix points to.
\<close>

definition released :: "BandedSystem \<Rightarrow> heap \<Rightarrow> heap" where
  "released A h = snd (destroy A h)"

definition live :: "heap \<Rightarrow> nat" where
  "live h = length (filter (\<lambda>c. c \<noteq> None) h)"

definition observe ::
  "error + CubicSpline \<times> heap \<Rightarrow> error + int \<times> Vector2d \<times> Vector2d \<times> real list list \<times> real list option" where
  "observe r =
     (case r of
        Inl e \<Rightarrow> Inl e
      | Inr (S, h) \<Rightarrow> Inr (spl_N S, spl_headP S, spl_tailP S, spl_b S, deref h (spl_A S)))"

text \<open>
  A small system for concrete instances: the 2 by 2 matrix with rows \<open>(4, 1)\<close> and
  \<open>(1, 4)\<close> in band storage.
\<close>

definition demo_system :: BandedSystem where
  "demo_system = \<lparr>bs_N = 2, bs_lowerBw = 1, bs_upperBw = 1, bs_ptrData = None\<rparr>"

definition demo_data :: "real list" where
  "demo_data = [0, 1, 4, 4, 1, 0]"

text \<open>
  The remaining notions serve the proofs. One step of the elimination on a full matrix,
  dominance of the trailing block, the two factors a factorized matrix holds, and the
  invariant of the elimination: the original is the product of the columns of multipliers
  computed so far and the rows still to be reduced.
\<close>

definition gstep :: "int \<Rightarrow> int \<Rightarrow> (int \<Rightarrow> int \<Rightarrow> real) \<Rightarrow> int \<Rightarrow> int \<Rightarrow> real" where
  "gstep n k M i j =
     (if k < i \<and> i < n then
        (if j = k then M i k / M k k
         else if k < j \<and> j < n then M i j - M i k / M k k * M k j
         else M i j)
      else M i j)"

definition row_dom :: "int \<Rightarrow> int \<Rightarrow> (int \<Rightarrow> int \<Rightarrow> real) \<Rightarrow> bool" where
  "row_dom n k M \<longleftrightarrow> (\<forall>i. k \<le> i \<and> i < n \<longrightarrow> (\<Sum>j\<in>{k..<n} - {i}. \<bar>M i j\<bar>) < \<bar>M i i\<bar>)"

definition col_dom :: "int \<Rightarrow> int \<Rightarrow> (int \<Rightarrow> int \<Rightarrow> real) \<Rightarrow> bool" where
  "col_dom n k M \<longleftrightarrow> row_dom n k (\<lambda>i j. M j i)"

definition upper_of :: "(int \<Rightarrow> int \<Rightarrow> real) \<Rightarrow> int \<Rightarrow> int \<Rightarrow> real" where
  "upper_of M t j = (if t \<le> j then M t j else 0)"

definition lower_of :: "(int \<Rightarrow> int \<Rightarrow> real) \<Rightarrow> int \<Rightarrow> int \<Rightarrow> real" where
  "lower_of M i t = (if t < i then M i t else if t = i then 1 else 0)"

definition lu_inv :: "int \<Rightarrow> int \<Rightarrow> (int \<Rightarrow> int \<Rightarrow> real) \<Rightarrow> (int \<Rightarrow> int \<Rightarrow> real) \<Rightarrow> bool" where
  "lu_inv n k M0 M \<longleftrightarrow>
     (\<forall>i j. 0 \<le> i \<and> i < n \<and> 0 \<le> j \<and> j < n \<longrightarrow>
        M0 i j = (\<Sum>t\<in>{0..<min i k}. M i t * upper_of M t j) +
                 (if i \<le> k then upper_of M i j else if k \<le> j then M i j else 0))"

definition lu_prod :: "int \<Rightarrow> (int \<Rightarrow> int \<Rightarrow> real) \<Rightarrow> (int \<Rightarrow> int \<Rightarrow> real) \<Rightarrow> bool" where
  "lu_prod n M0 M \<longleftrightarrow>
     (\<forall>i j. 0 \<le> i \<and> i < n \<and> 0 \<le> j \<and> j < n \<longrightarrow>
        M0 i j = (\<Sum>t\<in>{0..<n}. lower_of M i t * upper_of M t j)) \<and>
     (\<forall>i. 0 \<le> i \<and> i < n \<longrightarrow> M i i \<noteq> 0)"

text \<open>
  One column step of a substitution on a single column of the right-hand side, sweeping
  downwards (\<open>lstep\<close>) or upwards (\<open>ustep\<close>), with or without the division by the
  diagonal; and the two solvers as compositions of these steps.
\<close>

definition lstep :: "int \<Rightarrow> (int \<Rightarrow> int \<Rightarrow> real) \<Rightarrow> bool \<Rightarrow> int \<Rightarrow> (int \<Rightarrow> real) \<Rightarrow> int \<Rightarrow> real" where
  "lstep n T dv j x r =
     (let xj = (if dv then x j / T j j else x j)
      in if r = j then xj else if j < r \<and> r < n then x r - T r j * xj else x r)"

definition ustep :: "(int \<Rightarrow> int \<Rightarrow> real) \<Rightarrow> bool \<Rightarrow> int \<Rightarrow> (int \<Rightarrow> real) \<Rightarrow> int \<Rightarrow> real" where
  "ustep T dv j x r =
     (let xj = (if dv then x j / T j j else x j)
      in if r = j then xj else if 0 \<le> r \<and> r < j then x r - T r j * xj else x r)"

definition dg :: "(int \<Rightarrow> int \<Rightarrow> real) \<Rightarrow> bool \<Rightarrow> int \<Rightarrow> real" where
  "dg T dv i = (if dv then T i i else 1)"

definition asolve :: "int \<Rightarrow> (int \<Rightarrow> int \<Rightarrow> real) \<Rightarrow> (int \<Rightarrow> real) \<Rightarrow> int \<Rightarrow> real" where
  "asolve n M x = fold (ustep M True) (rev [0..n - 1]) (fold (lstep n M False) [0..n - 1] x)"

definition asolveAdj :: "int \<Rightarrow> (int \<Rightarrow> int \<Rightarrow> real) \<Rightarrow> (int \<Rightarrow> real) \<Rightarrow> int \<Rightarrow> real" where
  "asolveAdj n M x =
     fold (ustep (\<lambda>i j. M j i) False) (rev [0..n - 1])
       (fold (lstep n (\<lambda>i j. M j i) True) [0..n - 1] x)"

text \<open>
  A column of a right-hand side as a function of the row index, and the row elimination
  with the coefficient taken from any function.
\<close>

definition view :: "real list list \<Rightarrow> nat \<Rightarrow> int \<Rightarrow> real" where
  "view b c r = (if 0 \<le> r \<and> r < int (length b) then b ! nat r ! c else 0)"

definition elim_gen :: "(int \<Rightarrow> real) \<Rightarrow> int \<Rightarrow> int \<Rightarrow> real list list \<Rightarrow> real list list" where
  "elim_gen g j i b = (if g i \<noteq> 0 then b[nat i := row_sub (g i) (b ! nat i) (b ! nat j)] else b)"

text \<open>
  The coefficient table of a fitted spline: block \<open>k\<close> holds the four columns that
  \<^verbatim>\<open>setInnerPoints\<close> derives from the waypoints and some tangents \<open>D\<close> that vanish at both
  ends. \<open>fit_lu\<close> and \<open>fit_coeffs\<close> name the array and the table a fit leaves behind.
\<close>

definition fitted_table ::
  "int \<Rightarrow> Vector2d \<Rightarrow> Vector2d \<Rightarrow> Vector2d list \<Rightarrow> CubicSpline \<Rightarrow> real list list \<Rightarrow> bool" where
  "fitted_table n hp tp inPs S D \<longleftrightarrow>
     spl_N S = n \<and> length (spl_b S) = nat (n * 4) \<and>
     length D = nat (n + 1) \<and> D ! 0 = [0, 0] \<and> D ! nat n = [0, 0] \<and>
     (\<forall>k. 0 \<le> k \<and> k < n \<longrightarrow>
        get_block (spl_b S) (k * 4) = coeffMat (hp # take (nat (n - 1)) inPs @ [tp]) D k)"

definition fit_lu :: "BandedSystem \<Rightarrow> int \<Rightarrow> Vector2d list \<Rightarrow> real list \<Rightarrow> real list list \<Rightarrow> real list" where
  "fit_lu A n X d0 b = factorizeLU A (fst (fold (fill_row A n X) [0..n - 2] (d0, b)))"

definition fit_coeffs :: "BandedSystem \<Rightarrow> int \<Rightarrow> Vector2d list \<Rightarrow> real list \<Rightarrow> real list list \<Rightarrow> real list list" where
  "fit_coeffs A n X d0 b =
     (let b2 = solve A (fit_lu A n X d0 b) (snd (fold (fill_row A n X) [0..n - 2] (d0, b)));
          D = fold (\<lambda>i D. D[nat i := b2 ! nat (i - 1)]) [1..n - 1]
                (replicate (nat (n + 1)) [0, 0])
      in fold (\<lambda>i b. set_block b (i * 4) (coeffMat X D i)) [0..n - 1]
           (replicate (nat (n * 4)) [0, 0]))"

section \<open>Loops over an index range\<close>

lemma fold_upto_inv:
  assumes "P a s"
    and "\<And>i s. a \<le> i \<Longrightarrow> i \<le> b \<Longrightarrow> P i s \<Longrightarrow> P (i + 1) (f i s)"
    and "a \<le> b + 1"
  shows "P (b + 1) (fold f [a..b] s)"
  using assms
proof (induction "nat (b + 1 - a)" arbitrary: a s)
  case 0
  then have "a = b + 1" by simp
  with 0 show ?case by simp
next
  case (Suc n)
  then have ab: "a \<le> b" by linarith
  have "P (b + 1) (fold f [a + 1..b] (f a s))"
  proof (rule Suc.hyps(1))
    show "n = nat (b + 1 - (a + 1))" using Suc.hyps(2) by linarith
    show "P (a + 1) (f a s)" using Suc.prems(1,2) ab by simp
    show "\<And>i s. a + 1 \<le> i \<Longrightarrow> i \<le> b \<Longrightarrow> P i s \<Longrightarrow> P (i + 1) (f i s)"
      using Suc.prems(2) by simp
    show "a + 1 \<le> b + 1" using ab by simp
  qed
  then show ?case using ab by (simp add: upto_rec1)
qed

lemma fold_rev_upto_inv:
  assumes "P b s"
    and "\<And>i s. a \<le> i \<Longrightarrow> i \<le> b \<Longrightarrow> P i s \<Longrightarrow> P (i - 1) (f i s)"
    and "a \<le> b + 1"
  shows "P (a - 1) (fold f (rev [a..b]) s)"
  using assms
proof (induction "nat (b + 1 - a)" arbitrary: b s)
  case 0
  then have "b = a - 1" by simp
  with 0 show ?case by simp
next
  case (Suc n)
  then have ab: "a \<le> b" by linarith
  have "P (a - 1) (fold f (rev [a..b - 1]) (f b s))"
  proof (rule Suc.hyps(1))
    show "n = nat (b - 1 + 1 - a)" using Suc.hyps(2) by linarith
    show "P (b - 1) (f b s)" using Suc.prems(1,2) ab by simp
    show "\<And>i s. a \<le> i \<Longrightarrow> i \<le> b - 1 \<Longrightarrow> P i s \<Longrightarrow> P (i - 1) (f i s)"
      using Suc.prems(2) by simp
    show "a \<le> b - 1 + 1" using ab by simp
  qed
  then show ?case using ab by (simp add: upto_rec2)
qed

lemma offset_lower: "in_band A i j \<Longrightarrow> 0 \<le> offset A i j"
  by (simp add: in_band_def offset_def)

lemma offset_upper:
  assumes "in_band A i j"
  shows "offset A i j < actualSize A"
proof -
  let ?n = "bs_N A" and ?r = "i - j + bs_upperBw A"
  have r: "?r + 1 \<le> bs_lowerBw A + bs_upperBw A + 1" and j: "j < ?n" and n: "0 \<le> ?n"
    using assms by (auto simp: in_band_def)
  have "?r * ?n + j < ?r * ?n + ?n" using j by simp
  also have "\<dots> = (?r + 1) * ?n" by (simp add: algebra_simps)
  also have "\<dots> \<le> (bs_lowerBw A + bs_upperBw A + 1) * ?n"
    using r n by (rule mult_right_mono)
  finally show ?thesis by (simp add: offset_def actualSize_def mult.commute)
qed

lemma offset_inj:
  assumes "in_band A i j" "in_band A i' j'" "offset A i j = offset A i' j'"
  shows "i = i' \<and> j = j'"
proof -
  let ?n = "bs_N A"
  have j: "0 \<le> j" "j < ?n" and j': "0 \<le> j'" "j' < ?n"
    using assms(1,2) by (auto simp: in_band_def)
  have e: "(i - j + bs_upperBw A) * ?n + j = (i' - j' + bs_upperBw A) * ?n + j'"
    using assms(3) by (simp add: offset_def)
  have "((i - j + bs_upperBw A) * ?n + j) mod ?n = j" using j by simp
  moreover have "((i' - j' + bs_upperBw A) * ?n + j') mod ?n = j'" using j' by simp
  ultimately have jj: "j = j'" using e by simp
  have "((i - j + bs_upperBw A) * ?n + j) div ?n = i - j + bs_upperBw A" using j by simp
  moreover have "((i' - j' + bs_upperBw A) * ?n + j') div ?n = i' - j' + bs_upperBw A"
    using j' by simp
  ultimately have "i - j = i' - j'" using e by simp
  with jj show ?thesis by simp
qed

section \<open>Element access and the factorization\<close>

lemma bs_wf_put [simp]: "bs_wf A (bs_put A d i j v) = bs_wf A d"
  by (simp add: bs_wf_def bs_put_def)

lemma entry_in_band: "in_band A i j \<Longrightarrow> bs_at A d i j = entry A d i j"
  by (simp add: entry_def)

lemma entry_put:
  assumes "bs_wf A d" "in_band A i j"
  shows "entry A (bs_put A d i j v) i' j' = (if i' = i \<and> j' = j then v else entry A d i' j')"
proof (cases "in_band A i' j'")
  case False
  then show ?thesis using assms(2) by (auto simp: entry_def)
next
  case True
  have lt: "nat (offset A i j) < length d"
    using offset_upper [OF assms(2)] offset_lower [OF assms(2)] assms(1)
    unfolding bs_wf_def by linarith
  have eq: "nat (offset A i j) = nat (offset A i' j') \<longleftrightarrow> i' = i \<and> j' = j"
    using offset_inj [OF assms(2) True] offset_lower [OF assms(2)] offset_lower [OF True]
    by (auto simp: nat_eq_iff)
  show ?thesis
    using True lt eq by (simp add: entry_def bs_at_def bs_put_def nth_list_update)
qed

lemma entry_put_fun:
  assumes "bs_wf A d" "in_band A i j"
  shows "entry A (bs_put A d i j v) = (\<lambda>r c. if r = i \<and> c = j then v else entry A d r c)"
  by (intro ext) (simp add: entry_put [OF assms])

lemma entry_out: "\<not> in_band A i j \<Longrightarrow> entry A d i j = 0"
  by (simp add: entry_def)

lemma scale_loop:
  assumes wf: "bs_wf A d" and k: "0 \<le> k" "k < bs_N A" and iM: "iM = min (k + bs_lowerBw A) (bs_N A - 1)"
  shows "bs_wf A (fold (scale_entry A k cVl) [k + 1..iM] d) \<and>
         entry A (fold (scale_entry A k cVl) [k + 1..iM] d) =
           (\<lambda>r c. if c = k \<and> k < r \<and> r < bs_N A then entry A d r k / cVl else entry A d r c)"
proof -
  let ?P = "\<lambda>i d'. bs_wf A d' \<and>
     entry A d' = (\<lambda>r c. if c = k \<and> k < r \<and> r < i then entry A d r k / cVl else entry A d r c)"
  have le: "k + 1 \<le> iM + 1" using wf k iM by (auto simp: bs_wf_def)
  have "?P (iM + 1) (fold (scale_entry A k cVl) [k + 1..iM] d)"
  proof (rule fold_upto_inv [where P = ?P, OF _ _ le])
    show "?P (k + 1) d" using wf by (auto intro!: ext)
  next
    fix i s assume i: "k + 1 \<le> i" "i \<le> iM" and P: "?P i s"
    have band: "in_band A i k" using i k iM wf by (auto simp: in_band_def bs_wf_def)
    have cur: "bs_at A s i k = entry A d i k"
      using P band by (simp add: entry_in_band)
    show "?P (i + 1) (scale_entry A k cVl i s)"
    proof (cases "entry A d i k = 0")
      case True
      then show ?thesis using P cur i by (auto simp: scale_entry_def intro!: ext)
    next
      case False
      then show ?thesis using P cur band i
        by (auto simp: scale_entry_def entry_put_fun intro!: ext)
    qed
  qed
  moreover have "entry A d r k / cVl = entry A d r k" if "k < r" "r < bs_N A" "\<not> r < iM + 1" for r
  proof -
    have "\<not> in_band A r k" using that iM by (auto simp: in_band_def)
    then show ?thesis by (simp add: entry_out)
  qed
  moreover have "iM < bs_N A" using iM by simp
  ultimately show ?thesis by (auto intro!: ext)
qed

lemma update_inner_loop:
  assumes wf: "bs_wf A d" and k: "0 \<le> k" "k < bs_N A"
    and iM: "iM = min (k + bs_lowerBw A) (bs_N A - 1)"
    and j: "k < j" "j \<le> min (k + bs_upperBw A) (bs_N A - 1)"
  shows "bs_wf A (fold (update_entry A k j cVl) [k + 1..iM] d) \<and>
         entry A (fold (update_entry A k j cVl) [k + 1..iM] d) =
           (\<lambda>r c. if c = j \<and> k < r \<and> r < bs_N A then entry A d r j - entry A d r k * cVl
                  else entry A d r c)"
proof -
  let ?P = "\<lambda>i d'. bs_wf A d' \<and>
     entry A d' = (\<lambda>r c. if c = j \<and> k < r \<and> r < i then entry A d r j - entry A d r k * cVl
                          else entry A d r c)"
  have le: "k + 1 \<le> iM + 1" using wf k iM by (auto simp: bs_wf_def)
  have "?P (iM + 1) (fold (update_entry A k j cVl) [k + 1..iM] d)"
  proof (rule fold_upto_inv [where P = ?P, OF _ _ le])
    show "?P (k + 1) d" using wf by (auto intro!: ext)
  next
    fix i s assume i: "k + 1 \<le> i" "i \<le> iM" and P: "?P i s"
    have band: "in_band A i k" "in_band A i j"
      using i k j iM wf by (auto simp: in_band_def bs_wf_def)
    have cur: "bs_at A s i k = entry A d i k" "bs_at A s i j = entry A d i j"
      using P band j by (simp_all add: entry_in_band)
    show "?P (i + 1) (update_entry A k j cVl i s)"
    proof (cases "entry A d i k = 0")
      case True
      then show ?thesis using P cur i by (auto simp: update_entry_def intro!: ext)
    next
      case False
      then show ?thesis using P cur band i
        by (auto simp: update_entry_def entry_put_fun intro!: ext)
    qed
  qed
  moreover have "entry A d r j - entry A d r k * cVl = entry A d r j"
    if "k < r" "r < bs_N A" "\<not> r < iM + 1" for r
  proof -
    have "\<not> in_band A r k" using that iM by (auto simp: in_band_def)
    then show ?thesis by (simp add: entry_out)
  qed
  moreover have "iM < bs_N A" using iM by simp
  ultimately show ?thesis by (auto intro!: ext)
qed

lemma update_col_entry:
  assumes wf: "bs_wf A d" and k: "0 \<le> k" "k < bs_N A"
    and iM: "iM = min (k + bs_lowerBw A) (bs_N A - 1)"
    and j: "k < j" "j \<le> min (k + bs_upperBw A) (bs_N A - 1)"
  shows "bs_wf A (update_col A k iM j d) \<and>
         entry A (update_col A k iM j d) =
           (\<lambda>r c. if c = j \<and> k < r \<and> r < bs_N A
                  then entry A d r j - entry A d r k * entry A d k j
                  else entry A d r c)"
proof -
  have band: "in_band A k j" using k j wf by (auto simp: in_band_def bs_wf_def)
  then have cv: "bs_at A d k j = entry A d k j" by (simp add: entry_in_band)
  show ?thesis
  proof (cases "entry A d k j = 0")
    case True
    then show ?thesis using wf cv by (auto simp: update_col_def intro!: ext)
  next
    case False
    then show ?thesis
      using update_inner_loop [OF wf k iM j, of "entry A d k j"] cv
      by (simp add: update_col_def)
  qed
qed

lemma update_outer_loop:
  assumes wf: "bs_wf A d" and k: "0 \<le> k" "k < bs_N A"
    and iM: "iM = min (k + bs_lowerBw A) (bs_N A - 1)"
    and jM: "jM = min (k + bs_upperBw A) (bs_N A - 1)"
  shows "bs_wf A (fold (update_col A k iM) [k + 1..jM] d) \<and>
         entry A (fold (update_col A k iM) [k + 1..jM] d) =
           (\<lambda>r c. if k < c \<and> c < bs_N A \<and> k < r \<and> r < bs_N A
                  then entry A d r c - entry A d r k * entry A d k c
                  else entry A d r c)"
proof -
  let ?P = "\<lambda>j d'. bs_wf A d' \<and>
     entry A d' = (\<lambda>r c. if k < c \<and> c < j \<and> k < r \<and> r < bs_N A
                          then entry A d r c - entry A d r k * entry A d k c
                          else entry A d r c)"
  have le: "k + 1 \<le> jM + 1" using wf k jM by (auto simp: bs_wf_def)
  have "?P (jM + 1) (fold (update_col A k iM) [k + 1..jM] d)"
  proof (rule fold_upto_inv [where P = ?P, OF _ _ le])
    show "?P (k + 1) d" using wf by (auto intro!: ext)
  next
    fix j s assume j: "k + 1 \<le> j" "j \<le> jM" and P: "?P j s"
    have wfs: "bs_wf A s" using P by simp
    have j': "k < j" "j \<le> min (k + bs_upperBw A) (bs_N A - 1)" using j jM by auto
    have es: "entry A s r k = entry A d r k" "entry A s k c = entry A d k c"
      "entry A s r j = entry A d r j" for r c
      using P by simp_all
    show "?P (j + 1) (update_col A k iM j s)"
      using update_col_entry [OF wfs k iM j'] P j
      by (auto simp: es intro!: ext)
  qed
  moreover have "entry A d r c - entry A d r k * entry A d k c = entry A d r c"
    if "k < c" "c < bs_N A" "\<not> c < jM + 1" for r c
  proof -
    have "\<not> in_band A k c" using that jM by (auto simp: in_band_def)
    then show ?thesis by (simp add: entry_out)
  qed
  moreover have "jM < bs_N A" using jM by simp
  ultimately show ?thesis by (auto intro!: ext)
qed

lemma factorize_step_entry:
  assumes wf: "bs_wf A d" and k: "0 \<le> k" "k < bs_N A"
  shows "bs_wf A (factorize_step A k d) \<and>
         entry A (factorize_step A k d) = gstep (bs_N A) k (entry A d)"
proof -
  define iM where "iM = min (k + bs_lowerBw A) (bs_N A - 1)"
  define jM where "jM = min (k + bs_upperBw A) (bs_N A - 1)"
  define d1 where "d1 = fold (scale_entry A k (bs_at A d k k)) [k + 1..iM] d"
  have kk: "bs_at A d k k = entry A d k k"
    using k wf by (simp add: entry_def in_band_def bs_wf_def)
  have s1: "bs_wf A d1"
    "entry A d1 = (\<lambda>r c. if c = k \<and> k < r \<and> r < bs_N A then entry A d r k / entry A d k k
                         else entry A d r c)"
    using scale_loop [OF wf k iM_def, of "entry A d k k"] unfolding d1_def kk by blast+
  have s2: "bs_wf A (fold (update_col A k iM) [k + 1..jM] d1)"
    "entry A (fold (update_col A k iM) [k + 1..jM] d1) =
       (\<lambda>r c. if k < c \<and> c < bs_N A \<and> k < r \<and> r < bs_N A
              then entry A d1 r c - entry A d1 r k * entry A d1 k c
              else entry A d1 r c)"
    using update_outer_loop [OF s1(1) k iM_def jM_def] by simp_all
  have st: "factorize_step A k d = fold (update_col A k iM) [k + 1..jM] d1"
    by (simp add: factorize_step_def Let_def iM_def jM_def d1_def)
  have "entry A (factorize_step A k d) r c = gstep (bs_N A) k (entry A d) r c" for r c
    unfolding st s2(2) s1(2) gstep_def by auto
  then show ?thesis using s2(1) st by (auto intro!: ext)
qed

lemma factorizeLU_entry:
  assumes wf: "bs_wf A d"
  shows "bs_wf A (factorizeLU A d) \<and>
         entry A (factorizeLU A d) = fold (gstep (bs_N A)) [0..bs_N A - 2] (entry A d)"
proof (cases "bs_N A = 0")
  case True
  then show ?thesis using wf by (simp add: factorizeLU_def)
next
  case False
  then have le: "(0::int) \<le> bs_N A - 2 + 1" using wf by (simp add: bs_wf_def)
  let ?P = "\<lambda>k d'. bs_wf A d' \<and> entry A d' = fold (gstep (bs_N A)) [0..k - 1] (entry A d)"
  have "?P (bs_N A - 2 + 1) (fold (factorize_step A) [0..bs_N A - 2] d)"
  proof (rule fold_upto_inv [where P = ?P, OF _ _ le])
    show "?P 0 d" using wf by simp
  next
    fix k s assume k: "0 \<le> k" "k \<le> bs_N A - 2" and P: "?P k s"
    have "[0..k + 1 - 1] = [0..k - 1] @ [k]" using k upto_rec2 [of 0 k] by simp
    then show "?P (k + 1) (factorize_step A k s)"
      using factorize_step_entry [of A s k] P k by simp
  qed
  then show ?thesis by (simp add: factorizeLU_def)
qed

section \<open>Elimination on full matrices\<close>

lemma row_dom_pivot:
  assumes "row_dom n k M" "k < n"
  shows "M k k \<noteq> 0"
proof -
  have "(\<Sum>j\<in>{k..<n} - {k}. \<bar>M k j\<bar>) < \<bar>M k k\<bar>"
    using assms by (simp add: row_dom_def)
  moreover have "0 \<le> (\<Sum>j\<in>{k..<n} - {k}. \<bar>M k j\<bar>)" by (rule sum_nonneg) simp
  ultimately have "0 < \<bar>M k k\<bar>" by linarith
  then show ?thesis by simp
qed

lemma row_dom_cong:
  assumes "\<And>i j. k \<le> i \<Longrightarrow> i < n \<Longrightarrow> k \<le> j \<Longrightarrow> j < n \<Longrightarrow> M i j = M' i j"
  shows "row_dom n k M = row_dom n k M'"
proof -
  have "(\<Sum>j\<in>{k..<n} - {i}. \<bar>M i j\<bar>) = (\<Sum>j\<in>{k..<n} - {i}. \<bar>M' i j\<bar>)" "M i i = M' i i"
    if "k \<le> i" "i < n" for i
    using that assms by (auto intro!: sum.cong)
  then show ?thesis by (simp add: row_dom_def)
qed

lemma row_dom_step:
  assumes dom: "row_dom n k M"
  shows "row_dom n (k + 1) (gstep n k M)"
  unfolding row_dom_def
proof (intro allI impI)
  fix i assume i: "k + 1 \<le> i \<and> i < n"
  define S where "S = {k + 1..<n} - {i}"
  define l where "l = M i k / M k k"
  have fin: "finite S" by (simp add: S_def)
  have kn: "k < n" using i by simp
  have piv: "M k k \<noteq> 0" using row_dom_pivot [OF dom kn] .
  have Si: "{k..<n} - {i} = insert k S" using i by (auto simp: S_def)
  have Sk: "{k..<n} - {k} = insert i S" using i by (auto simp: S_def)
  have kS: "k \<notin> S" "i \<notin> S" by (auto simp: S_def)
  have "(\<Sum>j\<in>{k..<n} - {i}. \<bar>M i j\<bar>) < \<bar>M i i\<bar>"
    using dom i unfolding row_dom_def by simp
  then have rowi: "\<bar>M i k\<bar> + (\<Sum>j\<in>S. \<bar>M i j\<bar>) < \<bar>M i i\<bar>"
    unfolding Si using kS fin by simp
  have "(\<Sum>j\<in>{k..<n} - {k}. \<bar>M k j\<bar>) < \<bar>M k k\<bar>"
    using dom kn unfolding row_dom_def by simp
  then have rowk: "\<bar>M k i\<bar> + (\<Sum>j\<in>S. \<bar>M k j\<bar>) < \<bar>M k k\<bar>"
    unfolding Sk using kS fin by simp
  have labs: "\<bar>l\<bar> * \<bar>M k k\<bar> = \<bar>M i k\<bar>"
    using piv by (simp add: l_def abs_divide)
  have "\<bar>l\<bar> * (\<bar>M k i\<bar> + (\<Sum>j\<in>S. \<bar>M k j\<bar>)) \<le> \<bar>l\<bar> * \<bar>M k k\<bar>"
    using rowk by (intro mult_left_mono) simp_all
  then have lk: "\<bar>l\<bar> * (\<Sum>j\<in>S. \<bar>M k j\<bar>) \<le> \<bar>M i k\<bar> - \<bar>l\<bar> * \<bar>M k i\<bar>"
    by (simp add: labs algebra_simps)
  have "(\<Sum>j\<in>S. \<bar>M i j - l * M k j\<bar>) \<le> (\<Sum>j\<in>S. \<bar>M i j\<bar> + \<bar>l\<bar> * \<bar>M k j\<bar>)"
    by (intro sum_mono) (metis abs_mult abs_triangle_ineq4)
  also have "\<dots> = (\<Sum>j\<in>S. \<bar>M i j\<bar>) + \<bar>l\<bar> * (\<Sum>j\<in>S. \<bar>M k j\<bar>)"
    by (simp add: sum.distrib sum_distrib_left)
  also have "\<dots> < \<bar>M i i\<bar> - \<bar>l\<bar> * \<bar>M k i\<bar>" using rowi lk by linarith
  also have "\<dots> \<le> \<bar>M i i - l * M k i\<bar>"
    by (metis abs_mult abs_triangle_ineq2)
  finally have main: "(\<Sum>j\<in>S. \<bar>M i j - l * M k j\<bar>) < \<bar>M i i - l * M k i\<bar>" .
  have "gstep n k M i j = M i j - l * M k j" if "j \<in> insert i S" for j
    using that i by (auto simp: gstep_def S_def l_def)
  then have "(\<Sum>j\<in>S. \<bar>gstep n k M i j\<bar>) = (\<Sum>j\<in>S. \<bar>M i j - l * M k j\<bar>)"
    "gstep n k M i i = M i i - l * M k i"
    by (auto intro!: sum.cong)
  then show "(\<Sum>j\<in>{k + 1..<n} - {i}. \<bar>gstep n k M i j\<bar>) < \<bar>gstep n k M i i\<bar>"
    using main by (simp add: S_def)
qed

lemma col_dom_pivot: "col_dom n k M \<Longrightarrow> k < n \<Longrightarrow> M k k \<noteq> 0"
  unfolding col_dom_def by (drule row_dom_pivot) simp_all

lemma col_dom_step:
  assumes dom: "col_dom n k M"
  shows "col_dom n (k + 1) (gstep n k M)"
proof -
  have "row_dom n (k + 1) (gstep n k (\<lambda>i j. M j i))"
    using dom unfolding col_dom_def by (rule row_dom_step)
  moreover have "gstep n k (\<lambda>i j. M j i) i j = gstep n k M j i"
    if "k + 1 \<le> i" "i < n" "k + 1 \<le> j" "j < n" for i j
    using that by (simp add: gstep_def)
  ultimately show ?thesis
    unfolding col_dom_def using row_dom_cong [of "k + 1" n "gstep n k (\<lambda>i j. M j i)" "\<lambda>i j. gstep n k M j i"]
    by simp
qed

lemma lu_inv_init: "lu_inv n 0 M M"
  by (auto simp: lu_inv_def upper_of_def)

lemma int_ivl_snoc: "0 \<le> k \<Longrightarrow> {0..<k + 1} = insert k {0..<k::int}"
  by auto

lemma lu_inv_step:
  assumes inv: "lu_inv n k M0 M" and k: "0 \<le> k" and piv: "M k k \<noteq> 0"
  shows "lu_inv n (k + 1) M0 (gstep n k M)"
  unfolding lu_inv_def
proof (intro allI impI)
  fix i j assume ij: "0 \<le> i \<and> i < n \<and> 0 \<le> j \<and> j < n"
  let ?M' = "gstep n k M"
  have old: "M0 i j = (\<Sum>t\<in>{0..<min i k}. M i t * upper_of M t j) +
                 (if i \<le> k then upper_of M i j else if k \<le> j then M i j else 0)"
    using inv ij by (simp add: lu_inv_def)
  have rows: "?M' t c = M t c" if "t \<le> k" for t c
    using that by (simp add: gstep_def)
  have up: "upper_of ?M' t c = upper_of M t c" if "t \<le> k" for t c
    using that by (simp add: upper_of_def rows)
  have cols: "?M' i t = M i t" if "t < k" for t
    using that by (simp add: gstep_def)
  show "M0 i j = (\<Sum>t\<in>{0..<min i (k + 1)}. ?M' i t * upper_of ?M' t j) +
          (if i \<le> k + 1 then upper_of ?M' i j else if k + 1 \<le> j then ?M' i j else 0)"
  proof (cases "i \<le> k")
    case True
    then have "min i (k + 1) = i" "min i k = i" by simp_all
    moreover have "(\<Sum>t\<in>{0..<i}. ?M' i t * upper_of ?M' t j) = (\<Sum>t\<in>{0..<i}. M i t * upper_of M t j)"
      using True by (intro sum.cong) (simp_all add: rows up)
    ultimately show ?thesis using old True by (simp add: up)
  next
    case False
    then have m: "min i (k + 1) = k + 1" "min i k = k" by simp_all
    have s: "(\<Sum>t\<in>{0..<k}. ?M' i t * upper_of ?M' t j) = (\<Sum>t\<in>{0..<k}. M i t * upper_of M t j)"
      by (intro sum.cong) (simp_all add: cols up)
    have ik: "?M' i k = M i k / M k k" using False ij by (simp add: gstep_def)
    have tail: "M i k / M k k * upper_of M k j +
            (if i \<le> k + 1 then upper_of ?M' i j else if k + 1 \<le> j then ?M' i j else 0) =
            (if k \<le> j then M i j else 0)"
    proof -
      consider "j < k" | "j = k" | "k < j" by linarith
      then show ?thesis
        using False ij piv by cases (simp_all add: upper_of_def gstep_def)
    qed
    have split: "(\<Sum>t\<in>{0..<k + 1}. f t) = f k + (\<Sum>t\<in>{0..<k}. f t)" for f :: "int \<Rightarrow> real"
      using k by (simp add: int_ivl_snoc)
    have "(\<Sum>t\<in>{0..<k + 1}. ?M' i t * upper_of ?M' t j) =
          M i k / M k k * upper_of M k j + (\<Sum>t\<in>{0..<k}. M i t * upper_of M t j)"
      unfolding split s by (simp add: ik up)
    then show ?thesis using old False tail by (simp add: m)
  qed
qed

section \<open>Substitution on a column\<close>

lemma lower_sweep:
  assumes nz: "\<And>i. dv \<Longrightarrow> 0 \<le> i \<Longrightarrow> i < n \<Longrightarrow> T i i \<noteq> 0" and n: "0 \<le> n"
    and i: "0 \<le> i" "i < n"
  shows "x i = dg T dv i * fold (lstep n T dv) [0..n - 1] x i +
               (\<Sum>t\<in>{0..<i}. T i t * fold (lstep n T dv) [0..n - 1] x t)"
proof -
  let ?P = "\<lambda>j y. \<forall>i. 0 \<le> i \<and> i < n \<longrightarrow>
     x i = (if i < j then dg T dv i * y i + (\<Sum>t\<in>{0..<i}. T i t * y t)
            else y i + (\<Sum>t\<in>{0..<j}. T i t * y t))"
  have le: "(0::int) \<le> n - 1 + 1" using n by simp
  have "?P (n - 1 + 1) (fold (lstep n T dv) [0..n - 1] x)"
  proof (rule fold_upto_inv [where P = ?P, OF _ _ le])
    show "?P 0 x" by simp
  next
    fix j y assume j: "0 \<le> j" "j \<le> n - 1" and P: "?P j y"
    let ?y = "lstep n T dv j y"
    have dj: "dg T dv j * ?y j = y j"
      using nz [of j] j by (auto simp: lstep_def dg_def)
    have low: "?y r = y r" if "r < j" for r using that by (simp add: lstep_def Let_def)
    have high: "?y r = y r - T r j * ?y j" if "j < r" "r < n" for r
      using that by (simp add: lstep_def Let_def)
    have split: "(\<Sum>t\<in>{0..<j + 1}. f t) = f j + (\<Sum>t\<in>{0..<j}. f t)" for f :: "int \<Rightarrow> real"
      using j by (simp add: int_ivl_snoc)
    show "?P (j + 1) ?y"
    proof (intro allI impI)
      fix i assume i: "0 \<le> i \<and> i < n"
      consider "i < j" | "i = j" | "j < i" by linarith
      then show "x i = (if i < j + 1 then dg T dv i * ?y i + (\<Sum>t\<in>{0..<i}. T i t * ?y t)
                        else ?y i + (\<Sum>t\<in>{0..<j + 1}. T i t * ?y t))"
      proof cases
        case 1
        then have "(\<Sum>t\<in>{0..<i}. T i t * ?y t) = (\<Sum>t\<in>{0..<i}. T i t * y t)"
          by (intro sum.cong) (simp_all add: low)
        then show ?thesis using P i 1 by (simp add: low)
      next
        case 2
        have "(\<Sum>t\<in>{0..<j}. T j t * ?y t) = (\<Sum>t\<in>{0..<j}. T j t * y t)"
          by (intro sum.cong) (simp_all add: low)
        then show ?thesis using P i 2 dj by simp
      next
        case 3
        have "(\<Sum>t\<in>{0..<j}. T i t * ?y t) = (\<Sum>t\<in>{0..<j}. T i t * y t)"
          by (intro sum.cong) (simp_all add: low)
        then show ?thesis using P i 3 high [of i] by (simp add: split)
      qed
    qed
  qed
  then show ?thesis using i by simp
qed

lemma int_ivl_cons: "j < n \<Longrightarrow> {j - 1<..<n} = insert j {j<..<n::int}"
  by auto

lemma upper_sweep:
  assumes nz: "\<And>i. dv \<Longrightarrow> 0 \<le> i \<Longrightarrow> i < n \<Longrightarrow> T i i \<noteq> 0" and n: "0 \<le> n"
    and i: "0 \<le> i" "i < n"
  shows "x i = dg T dv i * fold (ustep T dv) (rev [0..n - 1]) x i +
               (\<Sum>t\<in>{i<..<n}. T i t * fold (ustep T dv) (rev [0..n - 1]) x t)"
proof -
  let ?P = "\<lambda>j y. \<forall>i. 0 \<le> i \<and> i < n \<longrightarrow>
     x i = (if j < i then dg T dv i * y i + (\<Sum>t\<in>{i<..<n}. T i t * y t)
            else y i + (\<Sum>t\<in>{j<..<n}. T i t * y t))"
  have le: "(0::int) \<le> n - 1 + 1" using n by simp
  have "?P (0 - 1) (fold (ustep T dv) (rev [0..n - 1]) x)"
  proof (rule fold_rev_upto_inv [where P = ?P, OF _ _ le])
    have "{n - 1<..<n} = ({}::int set)" by auto
    then show "?P (n - 1) x" by simp
  next
    fix j y assume j: "0 \<le> j" "j \<le> n - 1" and P: "?P j y"
    let ?y = "ustep T dv j y"
    have dj: "dg T dv j * ?y j = y j"
      using nz [of j] j by (auto simp: ustep_def dg_def)
    have high: "?y r = y r" if "j < r" for r using that by (simp add: ustep_def Let_def)
    have low: "?y r = y r - T r j * ?y j" if "0 \<le> r" "r < j" for r
      using that by (simp add: ustep_def Let_def)
    have split: "(\<Sum>t\<in>{j - 1<..<n}. f t) = f j + (\<Sum>t\<in>{j<..<n}. f t)" for f :: "int \<Rightarrow> real"
      using j by (simp add: int_ivl_cons)
    show "?P (j - 1) ?y"
    proof (intro allI impI)
      fix i assume i: "0 \<le> i \<and> i < n"
      consider "j < i" | "i = j" | "i < j" by linarith
      then show "x i = (if j - 1 < i then dg T dv i * ?y i + (\<Sum>t\<in>{i<..<n}. T i t * ?y t)
                        else ?y i + (\<Sum>t\<in>{j - 1<..<n}. T i t * ?y t))"
      proof cases
        case 1
        then have "(\<Sum>t\<in>{i<..<n}. T i t * ?y t) = (\<Sum>t\<in>{i<..<n}. T i t * y t)"
          by (intro sum.cong) (simp_all add: high)
        then show ?thesis using P i 1 by (simp add: high)
      next
        case 2
        have "(\<Sum>t\<in>{j<..<n}. T j t * ?y t) = (\<Sum>t\<in>{j<..<n}. T j t * y t)"
          by (intro sum.cong) (simp_all add: high)
        then show ?thesis using P i 2 dj by simp
      next
        case 3
        have "(\<Sum>t\<in>{j<..<n}. T i t * ?y t) = (\<Sum>t\<in>{j<..<n}. T i t * y t)"
          by (intro sum.cong) (simp_all add: high)
        then show ?thesis using P i 3 low [of i] by (simp add: split)
      qed
    qed
  qed
  then show ?thesis using i by simp
qed

section \<open>Triangular sums and the factors\<close>

lemma sum_below:
  fixes g :: "int \<Rightarrow> real"
  assumes i: "0 \<le> i" "i < n" and z: "\<And>t. i < t \<Longrightarrow> t < n \<Longrightarrow> g t = 0"
  shows "(\<Sum>t\<in>{0..<n}. g t) = g i + (\<Sum>t\<in>{0..<i}. g t)"
proof -
  have zz: "\<forall>t\<in>{0..<n} - insert i {0..<i}. g t = 0"
  proof
    fix t assume "t \<in> {0..<n} - insert i {0..<i}"
    then have "i < t" "t < n" by auto
    then show "g t = 0" by (rule z)
  qed
  have sub: "insert i {0..<i} \<subseteq> {0..<n}" using i by auto
  have "(\<Sum>t\<in>{0..<n}. g t) = (\<Sum>t\<in>insert i {0..<i}. g t)"
    by (rule sum.mono_neutral_right [OF _ sub zz]) simp
  then show ?thesis by simp
qed

lemma sum_above:
  fixes g :: "int \<Rightarrow> real"
  assumes i: "0 \<le> i" "i < n" and z: "\<And>t. 0 \<le> t \<Longrightarrow> t < i \<Longrightarrow> g t = 0"
  shows "(\<Sum>t\<in>{0..<n}. g t) = g i + (\<Sum>t\<in>{i<..<n}. g t)"
proof -
  have zz: "\<forall>t\<in>{0..<n} - insert i {i<..<n}. g t = 0"
  proof
    fix t assume "t \<in> {0..<n} - insert i {i<..<n}"
    then have "0 \<le> t" "t < i" by auto
    then show "g t = 0" by (rule z)
  qed
  have sub: "insert i {i<..<n} \<subseteq> {0..<n}" using i by auto
  have "(\<Sum>t\<in>{0..<n}. g t) = (\<Sum>t\<in>insert i {i<..<n}. g t)"
    by (rule sum.mono_neutral_right [OF _ sub zz]) simp
  then show ?thesis by simp
qed

lemma lower_sum:
  assumes "0 \<le> i" "i < n"
  shows "(\<Sum>t\<in>{0..<n}. lower_of M i t * f t) = f i + (\<Sum>t\<in>{0..<i}. M i t * f t)"
proof -
  have "(\<Sum>t\<in>{0..<n}. lower_of M i t * f t) =
        lower_of M i i * f i + (\<Sum>t\<in>{0..<i}. lower_of M i t * f t)"
    using assms by (intro sum_below) (simp_all add: lower_of_def)
  moreover have "(\<Sum>t\<in>{0..<i}. lower_of M i t * f t) = (\<Sum>t\<in>{0..<i}. M i t * f t)"
    by (intro sum.cong) (simp_all add: lower_of_def)
  ultimately show ?thesis by (simp add: lower_of_def)
qed

lemma upper_sum:
  assumes "0 \<le> i" "i < n"
  shows "(\<Sum>t\<in>{0..<n}. upper_of M i t * f t) = M i i * f i + (\<Sum>t\<in>{i<..<n}. M i t * f t)"
proof -
  have "(\<Sum>t\<in>{0..<n}. upper_of M i t * f t) =
        upper_of M i i * f i + (\<Sum>t\<in>{i<..<n}. upper_of M i t * f t)"
    using assms by (intro sum_above) (simp_all add: upper_of_def)
  moreover have "(\<Sum>t\<in>{i<..<n}. upper_of M i t * f t) = (\<Sum>t\<in>{i<..<n}. M i t * f t)"
    by (intro sum.cong) (simp_all add: upper_of_def)
  ultimately show ?thesis by (simp add: upper_of_def)
qed

lemma lowerT_sum:
  assumes "0 \<le> i" "i < n"
  shows "(\<Sum>t\<in>{0..<n}. lower_of M t i * f t) = f i + (\<Sum>t\<in>{i<..<n}. M t i * f t)"
proof -
  have "(\<Sum>t\<in>{0..<n}. lower_of M t i * f t) =
        lower_of M i i * f i + (\<Sum>t\<in>{i<..<n}. lower_of M t i * f t)"
    using assms by (intro sum_above) (simp_all add: lower_of_def)
  moreover have "(\<Sum>t\<in>{i<..<n}. lower_of M t i * f t) = (\<Sum>t\<in>{i<..<n}. M t i * f t)"
    by (intro sum.cong) (simp_all add: lower_of_def)
  ultimately show ?thesis by (simp add: lower_of_def)
qed

lemma upperT_sum:
  assumes "0 \<le> i" "i < n"
  shows "(\<Sum>t\<in>{0..<n}. upper_of M t i * f t) = M i i * f i + (\<Sum>t\<in>{0..<i}. M t i * f t)"
proof -
  have "(\<Sum>t\<in>{0..<n}. upper_of M t i * f t) =
        upper_of M i i * f i + (\<Sum>t\<in>{0..<i}. upper_of M t i * f t)"
    using assms by (intro sum_below) (simp_all add: upper_of_def)
  moreover have "(\<Sum>t\<in>{0..<i}. upper_of M t i * f t) = (\<Sum>t\<in>{0..<i}. M t i * f t)"
    by (intro sum.cong) (simp_all add: upper_of_def)
  ultimately show ?thesis by (simp add: upper_of_def)
qed

lemma tri_zero_lower:
  fixes v :: "int \<Rightarrow> real"
  assumes eq: "\<And>i. 0 \<le> i \<Longrightarrow> i < n \<Longrightarrow> c i \<noteq> 0 \<and> c i * v i + (\<Sum>t\<in>{0..<i}. g i t * v t) = 0"
  shows "0 \<le> i \<Longrightarrow> i < n \<Longrightarrow> v i = 0"
proof (induction "nat i" arbitrary: i rule: less_induct)
  case less
  have "(\<Sum>t\<in>{0..<i}. g i t * v t) = 0"
  proof (rule sum.neutral, rule ballI)
    fix t assume "t \<in> {0..<i}"
    then have "v t = 0" using less.hyps [of t] less.prems by simp
    then show "g i t * v t = 0" by simp
  qed
  then show ?case using eq [OF less.prems] by auto
qed

lemma tri_zero_upper:
  fixes v :: "int \<Rightarrow> real"
  assumes eq: "\<And>i. 0 \<le> i \<Longrightarrow> i < n \<Longrightarrow> c i \<noteq> 0 \<and> c i * v i + (\<Sum>t\<in>{i<..<n}. g i t * v t) = 0"
  shows "0 \<le> i \<Longrightarrow> i < n \<Longrightarrow> v i = 0"
proof (induction "nat (n - i)" arbitrary: i rule: less_induct)
  case less
  have "(\<Sum>t\<in>{i<..<n}. g i t * v t) = 0"
  proof (rule sum.neutral, rule ballI)
    fix t assume "t \<in> {i<..<n}"
    then have "v t = 0" using less.hyps [of t] less.prems by simp
    then show "g i t * v t = 0" by simp
  qed
  then show ?case using eq [OF less.prems] by auto
qed

lemma sum_assoc:
  fixes P Q :: "int \<Rightarrow> int \<Rightarrow> real"
  shows "(\<Sum>j\<in>{0..<n}. (\<Sum>t\<in>{0..<n}. P i t * Q t j) * x j) =
         (\<Sum>t\<in>{0..<n}. P i t * (\<Sum>j\<in>{0..<n}. Q t j * x j))"
proof -
  have "(\<Sum>j\<in>{0..<n}. (\<Sum>t\<in>{0..<n}. P i t * Q t j) * x j) =
        (\<Sum>j\<in>{0..<n}. \<Sum>t\<in>{0..<n}. P i t * (Q t j * x j))"
    by (simp add: sum_distrib_right mult.assoc)
  also have "\<dots> = (\<Sum>t\<in>{0..<n}. \<Sum>j\<in>{0..<n}. P i t * (Q t j * x j))"
    by (rule sum.swap)
  finally show ?thesis by (simp add: sum_distrib_left)
qed

lemma gauss_result:
  assumes dom: "row_dom n 0 M0 \<or> col_dom n 0 M0" and n: "0 \<le> n"
  shows "lu_prod n M0 (fold (gstep n) [0..n - 2] M0)"
proof (cases "n = 0")
  case True
  then show ?thesis by (simp add: lu_prod_def)
next
  case False
  let ?M = "fold (gstep n) [0..n - 2] M0"
  let ?P = "\<lambda>k M. (row_dom n k M \<or> col_dom n k M) \<and> (\<forall>t. 0 \<le> t \<and> t < k \<longrightarrow> M t t \<noteq> 0) \<and>
                   lu_inv n k M0 M"
  have le: "(0::int) \<le> n - 2 + 1" using n False by simp
  have "?P (n - 2 + 1) ?M"
  proof (rule fold_upto_inv [where P = ?P, OF _ _ le])
    show "?P 0 M0" using dom by (simp add: lu_inv_init)
  next
    fix k M assume k: "0 \<le> k" "k \<le> n - 2" and P: "?P k M"
    have piv: "M k k \<noteq> 0" using P k row_dom_pivot [of n k M] col_dom_pivot [of n k M] by auto
    have d: "row_dom n (k + 1) (gstep n k M) \<or> col_dom n (k + 1) (gstep n k M)"
      using P row_dom_step [of n k M] col_dom_step [of n k M] by auto
    have "gstep n k M t t = M t t" if "t \<le> k" for t using that by (simp add: gstep_def)
    moreover have "t < k \<or> t = k" if "t < k + 1" for t using that by linarith
    ultimately have "\<forall>t. 0 \<le> t \<and> t < k + 1 \<longrightarrow> gstep n k M t t \<noteq> 0"
      using P piv by auto
    then show "?P (k + 1) (gstep n k M)"
      using d lu_inv_step [of n k M0 M] P k piv by simp
  qed
  then have fin: "row_dom n (n - 1) ?M \<or> col_dom n (n - 1) ?M"
    "\<forall>t. 0 \<le> t \<and> t < n - 1 \<longrightarrow> ?M t t \<noteq> 0" "lu_inv n (n - 1) M0 ?M"
    by simp_all
  have "?M (n - 1) (n - 1) \<noteq> 0"
    using fin(1) row_dom_pivot [of n "n - 1" ?M] col_dom_pivot [of n "n - 1" ?M] by auto
  moreover have "i < n - 1 \<or> i = n - 1" if "i < n" for i using that by linarith
  ultimately have nz: "\<forall>i. 0 \<le> i \<and> i < n \<longrightarrow> ?M i i \<noteq> 0"
    using fin(2) by auto
  have "M0 i j = (\<Sum>t\<in>{0..<n}. lower_of ?M i t * upper_of ?M t j)"
    if "0 \<le> i" "i < n" "0 \<le> j" "j < n" for i j
  proof -
    have "M0 i j = (\<Sum>t\<in>{0..<i}. ?M i t * upper_of ?M t j) + upper_of ?M i j"
      using fin(3) that unfolding lu_inv_def by (simp add: min_def)
    then show ?thesis using lower_sum [OF that(1,2), of ?M "\<lambda>t. upper_of ?M t j"] by simp
  qed
  then show ?thesis using nz by (simp add: lu_prod_def)
qed

lemma asolve_correct:
  assumes lu: "lu_prod n M0 M" and n: "0 \<le> n" and i: "0 \<le> i" "i < n"
  shows "(\<Sum>j\<in>{0..<n}. M0 i j * asolve n M x j) = x i"
proof -
  define Z where "Z = fold (lstep n M False) [0..n - 1] x"
  define X where "X = asolve n M x"
  have X: "X = fold (ustep M True) (rev [0..n - 1]) Z" by (simp add: X_def Z_def asolve_def)
  have nz: "\<And>i. 0 \<le> i \<Longrightarrow> i < n \<Longrightarrow> M i i \<noteq> 0" using lu by (simp add: lu_prod_def)
  have "x i = dg M False i * Z i + (\<Sum>t\<in>{0..<i}. M i t * Z t)"
    unfolding Z_def by (rule lower_sweep [OF _ n i]) simp
  then have 1: "x i = (\<Sum>t\<in>{0..<n}. lower_of M i t * Z t)"
    by (simp add: lower_sum [OF i] dg_def)
  have 2: "Z t = (\<Sum>j\<in>{0..<n}. upper_of M t j * X j)" if t: "t \<in> {0..<n}" for t
  proof -
    have t': "0 \<le> t" "t < n" using t by simp_all
    have "Z t = dg M True t * X t + (\<Sum>j\<in>{t<..<n}. M t j * X j)"
      unfolding X by (rule upper_sweep [OF _ n t']) (simp add: nz)
    then show ?thesis by (simp add: upper_sum [OF t'] dg_def)
  qed
  have "(\<Sum>j\<in>{0..<n}. M0 i j * X j) =
        (\<Sum>j\<in>{0..<n}. (\<Sum>t\<in>{0..<n}. lower_of M i t * upper_of M t j) * X j)"
    using lu i by (intro sum.cong) (simp_all add: lu_prod_def)
  also have "\<dots> = (\<Sum>t\<in>{0..<n}. lower_of M i t * (\<Sum>j\<in>{0..<n}. upper_of M t j * X j))"
    by (rule sum_assoc)
  also have "\<dots> = (\<Sum>t\<in>{0..<n}. lower_of M i t * Z t)"
    by (intro sum.cong) (simp_all add: 2)
  finally show ?thesis using 1 by (simp add: X_def)
qed

lemma asolveAdj_correct:
  assumes lu: "lu_prod n M0 M" and n: "0 \<le> n" and i: "0 \<le> i" "i < n"
  shows "(\<Sum>j\<in>{0..<n}. M0 j i * asolveAdj n M x j) = x i"
proof -
  let ?T = "\<lambda>i j. M j i"
  define Z where "Z = fold (lstep n ?T True) [0..n - 1] x"
  define X where "X = asolveAdj n M x"
  have X: "X = fold (ustep ?T False) (rev [0..n - 1]) Z" by (simp add: X_def Z_def asolveAdj_def)
  have nz: "\<And>i. 0 \<le> i \<Longrightarrow> i < n \<Longrightarrow> M i i \<noteq> 0" using lu by (simp add: lu_prod_def)
  have "x i = dg ?T True i * Z i + (\<Sum>t\<in>{0..<i}. ?T i t * Z t)"
    unfolding Z_def by (rule lower_sweep [OF _ n i]) (simp add: nz)
  then have 1: "x i = (\<Sum>t\<in>{0..<n}. upper_of M t i * Z t)"
    by (simp add: upperT_sum [OF i] dg_def)
  have 2: "Z t = (\<Sum>j\<in>{0..<n}. lower_of M j t * X j)" if t: "t \<in> {0..<n}" for t
  proof -
    have t': "0 \<le> t" "t < n" using t by simp_all
    have "Z t = dg ?T False t * X t + (\<Sum>j\<in>{t<..<n}. ?T t j * X j)"
      unfolding X by (rule upper_sweep [OF _ n t']) simp
    then show ?thesis by (simp add: lowerT_sum [OF t'] dg_def)
  qed
  have "(\<Sum>j\<in>{0..<n}. M0 j i * X j) =
        (\<Sum>j\<in>{0..<n}. (\<Sum>t\<in>{0..<n}. upper_of M t i * lower_of M j t) * X j)"
    using lu i by (intro sum.cong) (simp_all add: lu_prod_def mult.commute)
  also have "\<dots> = (\<Sum>t\<in>{0..<n}. upper_of M t i * (\<Sum>j\<in>{0..<n}. lower_of M j t * X j))"
    by (rule sum_assoc [where P = "\<lambda>i t. upper_of M t i" and Q = "\<lambda>t j. lower_of M j t"])
  also have "\<dots> = (\<Sum>t\<in>{0..<n}. upper_of M t i * Z t)"
    by (intro sum.cong) (simp_all add: 2)
  finally show ?thesis using 1 by (simp add: X_def)
qed

lemma lu_unique:
  assumes lu: "lu_prod n M0 M"
    and eq: "\<And>i. 0 \<le> i \<Longrightarrow> i < n \<Longrightarrow> (\<Sum>j\<in>{0..<n}. M0 i j * w j) = 0"
    and i: "0 \<le> i" "i < n"
  shows "w i = 0"
proof -
  define u where "u t = (\<Sum>j\<in>{0..<n}. upper_of M t j * w j)" for t
  have nz: "\<And>i. 0 \<le> i \<Longrightarrow> i < n \<Longrightarrow> M i i \<noteq> 0" using lu by (simp add: lu_prod_def)
  have Lu: "(\<Sum>t\<in>{0..<n}. lower_of M r t * u t) = 0" if r: "0 \<le> r" "r < n" for r
  proof -
    have "(\<Sum>j\<in>{0..<n}. M0 r j * w j) =
          (\<Sum>j\<in>{0..<n}. (\<Sum>t\<in>{0..<n}. lower_of M r t * upper_of M t j) * w j)"
      using lu r by (intro sum.cong) (simp_all add: lu_prod_def)
    also have "\<dots> = (\<Sum>t\<in>{0..<n}. lower_of M r t * u t)"
      unfolding u_def by (rule sum_assoc)
    finally show ?thesis using eq [OF r] by simp
  qed
  have u0: "u r = 0" if r: "0 \<le> r" "r < n" for r
  proof (rule tri_zero_lower [where c = "\<lambda>_. 1" and g = M and n = n, OF _ r])
    fix t assume t: "0 \<le> t" "t < n"
    show "(1::real) \<noteq> 0 \<and> 1 * u t + (\<Sum>s\<in>{0..<t}. M t s * u s) = 0"
      using Lu [OF t] by (simp add: lower_sum [OF t])
  qed
  show ?thesis
  proof (rule tri_zero_upper [where c = "\<lambda>i. M i i" and g = M and n = n, OF _ i])
    fix t assume t: "0 \<le> t" "t < n"
    show "M t t \<noteq> 0 \<and> M t t * w t + (\<Sum>s\<in>{t<..<n}. M t s * w s) = 0"
      using u0 [OF t] nz [OF t] by (simp add: u_def upper_sum [OF t])
  qed
qed

lemma lu_unique_adj:
  assumes lu: "lu_prod n M0 M"
    and eq: "\<And>i. 0 \<le> i \<Longrightarrow> i < n \<Longrightarrow> (\<Sum>j\<in>{0..<n}. M0 j i * w j) = 0"
    and i: "0 \<le> i" "i < n"
  shows "w i = 0"
proof -
  define u where "u t = (\<Sum>j\<in>{0..<n}. lower_of M j t * w j)" for t
  have nz: "\<And>i. 0 \<le> i \<Longrightarrow> i < n \<Longrightarrow> M i i \<noteq> 0" using lu by (simp add: lu_prod_def)
  have Uu: "(\<Sum>t\<in>{0..<n}. upper_of M t r * u t) = 0" if r: "0 \<le> r" "r < n" for r
  proof -
    have "(\<Sum>j\<in>{0..<n}. M0 j r * w j) =
          (\<Sum>j\<in>{0..<n}. (\<Sum>t\<in>{0..<n}. upper_of M t r * lower_of M j t) * w j)"
      using lu r by (intro sum.cong) (simp_all add: lu_prod_def mult.commute)
    also have "\<dots> = (\<Sum>t\<in>{0..<n}. upper_of M t r * u t)"
      unfolding u_def by (rule sum_assoc [where P = "\<lambda>i t. upper_of M t i" and Q = "\<lambda>t j. lower_of M j t"])
    finally show ?thesis using eq [OF r] by simp
  qed
  have u0: "u r = 0" if r: "0 \<le> r" "r < n" for r
  proof (rule tri_zero_lower [where c = "\<lambda>i. M i i" and g = "\<lambda>i t. M t i" and n = n, OF _ r])
    fix t assume t: "0 \<le> t" "t < n"
    show "M t t \<noteq> 0 \<and> M t t * u t + (\<Sum>s\<in>{0..<t}. M s t * u s) = 0"
      using Uu [OF t] nz [OF t] by (simp add: upperT_sum [OF t])
  qed
  show ?thesis
  proof (rule tri_zero_upper [where c = "\<lambda>_. 1" and g = "\<lambda>i t. M t i" and n = n, OF _ i])
    fix t assume t: "0 \<le> t" "t < n"
    show "(1::real) \<noteq> 0 \<and> 1 * w t + (\<Sum>s\<in>{t<..<n}. M s t * w s) = 0"
      using u0 [OF t] by (simp add: u_def lowerT_sum [OF t])
  qed
qed

section \<open>The solvers on lists of rows\<close>

lemma elim_row_gen: "elim_row A d j = elim_gen (\<lambda>i. bs_at A d i j) j"
  by (intro ext) (simp add: elim_row_def elim_gen_def)

lemma elim_row_adj_gen: "elim_row_adj A d j = elim_gen (\<lambda>i. bs_at A d j i) j"
  by (intro ext) (simp add: elim_row_adj_def elim_gen_def)

lemma fold_refine:
  assumes "R s a" and "\<And>i s a. i \<in> set xs \<Longrightarrow> R s a \<Longrightarrow> R (f i s) (g i a)"
  shows "R (fold f xs s) (fold g xs a)"
  using assms by (induction xs arbitrary: s a) simp_all

lemma shape_row: "shape m n b \<Longrightarrow> 0 \<le> i \<Longrightarrow> i < n \<Longrightarrow> length (b ! nat i) = m"
  using nth_mem [of "nat i" b] by (auto simp: shape_def)

lemma shape_update:
  assumes "shape m n b" "length r = m"
  shows "shape m n (b[k := r])"
  using assms set_update_subset_insert [of b k r] by (auto simp: shape_def)

lemma view_update:
  assumes "shape m n b" "0 \<le> i" "i < n"
  shows "view (b[nat i := r]) c = (\<lambda>k. if k = i then r ! c else view b c k)"
proof
  fix k
  have len: "int (length b) = n" using assms(1) by (simp add: shape_def)
  show "view (b[nat i := r]) c k = (if k = i then r ! c else view b c k)"
  proof (cases "k = i")
    case True
    then show ?thesis using len assms by (simp add: view_def)
  next
    case False
    then have "nat i \<noteq> nat k \<or> k < 0" using assms(2) by linarith
    then show ?thesis using False by (auto simp: view_def)
  qed
qed

lemma view_in: "shape m n b \<Longrightarrow> 0 \<le> i \<Longrightarrow> i < n \<Longrightarrow> b ! nat i ! c = view b c i"
  by (simp add: view_def shape_def)

lemma elim_gen_view:
  assumes sh: "shape m n b" and i: "0 \<le> i" "i < n" and j: "0 \<le> j" "j < n" and c: "c < m"
  shows "shape m n (elim_gen g j i b) \<and>
         view (elim_gen g j i b) c = (\<lambda>k. if k = i then view b c i - g i * view b c j else view b c k)"
proof (cases "g i = 0")
  case True
  then show ?thesis using sh by (auto simp: elim_gen_def)
next
  case False
  let ?r = "row_sub (g i) (b ! nat i) (b ! nat j)"
  have li: "length (b ! nat i) = m" and lj: "length (b ! nat j) = m"
    using shape_row [OF sh] i j by simp_all
  have lr: "length ?r = m" using li lj by (simp add: row_sub_def)
  have "?r ! c = view b c i - g i * view b c j"
    using li lj c by (simp add: row_sub_def view_in [OF sh] i j)
  then have "view (b[nat i := ?r]) c = (\<lambda>k. if k = i then view b c i - g i * view b c j else view b c k)"
    unfolding view_update [OF sh i] by (intro ext) simp
  then show ?thesis
    using False shape_update [OF sh lr] by (simp add: elim_gen_def)
qed

lemma elim_loop:
  assumes sh: "shape m n b" and lo: "0 \<le> lo" and hi: "hi < n" and j: "0 \<le> j" "j < n"
    and out: "j < lo \<or> hi < j" and c: "c < m"
  shows "shape m n (fold (elim_gen g j) [lo..hi] b) \<and>
         view (fold (elim_gen g j) [lo..hi] b) c =
           (\<lambda>k. if lo \<le> k \<and> k \<le> hi then view b c k - g k * view b c j else view b c k)"
proof (cases "lo \<le> hi + 1")
  case False
  then show ?thesis using sh by (auto intro!: ext)
next
  case True
  let ?P = "\<lambda>i b'. shape m n b' \<and>
     view b' c = (\<lambda>k. if lo \<le> k \<and> k < i then view b c k - g k * view b c j else view b c k)"
  have "?P (hi + 1) (fold (elim_gen g j) [lo..hi] b)"
  proof (rule fold_upto_inv [where P = ?P, OF _ _ True])
    show "?P lo b" using sh by (auto intro!: ext)
  next
    fix i s assume i: "lo \<le> i" "i \<le> hi" and P: "?P i s"
    have sh': "shape m n s" using P by simp
    have i': "0 \<le> i" "i < n" using i lo hi by simp_all
    have vj: "view s c j = view b c j" "view s c i = view b c i" using P out i by auto
    show "?P (i + 1) (elim_gen g j i s)"
      using elim_gen_view [OF sh' i' j c, of g] P vj i by (auto intro!: ext)
  qed
  then show ?thesis by (auto intro!: ext)
qed

lemma in_band_diag: "bs_wf A d \<Longrightarrow> 0 \<le> j \<Longrightarrow> j < bs_N A \<Longrightarrow> in_band A j j"
  by (simp add: in_band_def bs_wf_def)

lemma row_div_view:
  assumes sh: "shape m n b" and j: "0 \<le> j" "j < n" and c: "c < m"
  shows "shape m n (b[nat j := row_div (b ! nat j) a]) \<and>
         view (b[nat j := row_div (b ! nat j) a]) c =
           (\<lambda>k. if k = j then view b c j / a else view b c k)"
proof -
  have lj: "length (b ! nat j) = m" using shape_row [OF sh j] .
  then have "length (row_div (b ! nat j) a) = m" by (simp add: row_div_def)
  moreover have "row_div (b ! nat j) a ! c = view b c j / a"
    using lj c by (simp add: row_div_def view_in [OF sh j])
  ultimately show ?thesis
    using shape_update [OF sh] unfolding view_update [OF sh j] by (auto intro!: ext)
qed

lemma elim_loop_band:
  assumes sh: "shape m n b" and lo: "0 \<le> lo" and hi: "hi < n" and j: "0 \<le> j" "j < n"
    and out: "j < lo \<or> hi < j" and c: "c < m"
    and sub: "lo' \<le> lo" "hi \<le> hi'"
    and g: "\<And>k. lo \<le> k \<Longrightarrow> k \<le> hi \<Longrightarrow> g k = T k"
    and z: "\<And>k. lo' \<le> k \<Longrightarrow> k \<le> hi' \<Longrightarrow> k < lo \<or> hi < k \<Longrightarrow> T k = 0"
  shows "shape m n (fold (elim_gen g j) [lo..hi] b) \<and>
         view (fold (elim_gen g j) [lo..hi] b) c =
           (\<lambda>k. if lo' \<le> k \<and> k \<le> hi' then view b c k - T k * view b c j else view b c k)"
proof -
  note L = elim_loop [OF sh lo hi j out c, of g]
  have "view (fold (elim_gen g j) [lo..hi] b) c k =
        (if lo' \<le> k \<and> k \<le> hi' then view b c k - T k * view b c j else view b c k)" for k
  proof (cases "lo \<le> k \<and> k \<le> hi")
    case True
    then show ?thesis using L sub g [of k] by simp
  next
    case False
    then have "T k = 0" if "lo' \<le> k \<and> k \<le> hi'" using z [of k] that by auto
    then show ?thesis using L False by auto
  qed
  then show ?thesis using L by (auto intro!: ext)
qed

lemma solve_fwd_view:
  assumes wf: "bs_wf A d" and sh: "shape m (bs_N A) b" and j: "0 \<le> j" "j < bs_N A" and c: "c < m"
  shows "shape m (bs_N A) (solve_fwd A d j b) \<and>
         view (solve_fwd A d j b) c = lstep (bs_N A) (entry A d) False j (view b c)"
proof -
  define hi where "hi = min (j + bs_lowerBw A) (bs_N A - 1)"
  have hi: "hi < bs_N A" "hi \<le> bs_N A - 1" by (simp_all add: hi_def)
  have lo: "0 \<le> j + 1" "j + 1 \<le> j + 1" using j by simp_all
  have g: "bs_at A d k j = entry A d k j" if "j + 1 \<le> k" "k \<le> hi" for k
    using that j wf by (intro entry_in_band) (auto simp: in_band_def hi_def bs_wf_def)
  have z: "entry A d k j = 0" if "j + 1 \<le> k" "k \<le> bs_N A - 1" "k < j + 1 \<or> hi < k" for k
    using that by (intro entry_out) (auto simp: in_band_def hi_def)
  have st: "solve_fwd A d j b = fold (elim_gen (\<lambda>i. bs_at A d i j) j) [j + 1..hi] b"
    by (simp add: solve_fwd_def elim_row_gen hi_def)
  note L = elim_loop_band [OF sh lo(1) hi(1) j _ c lo(2) hi(2), of "\<lambda>i. bs_at A d i j" "\<lambda>k. entry A d k j", OF _ g z]
  have "view (solve_fwd A d j b) c k = lstep (bs_N A) (entry A d) False j (view b c) k" for k
    unfolding st using L by (auto simp: lstep_def Let_def)
  then show ?thesis using L st by (auto intro!: ext)
qed

lemma solveAdj_bwd_view:
  assumes wf: "bs_wf A d" and sh: "shape m (bs_N A) b" and j: "0 \<le> j" "j < bs_N A" and c: "c < m"
  shows "shape m (bs_N A) (solveAdj_bwd A d j b) \<and>
         view (solveAdj_bwd A d j b) c = ustep (\<lambda>i j. entry A d j i) False j (view b c)"
proof -
  define lo where "lo = max 0 (j - bs_lowerBw A)"
  have lo: "0 \<le> lo" by (simp add: lo_def)
  have hi: "j - 1 < bs_N A" "j - 1 \<le> j - 1" using j by simp_all
  have g: "bs_at A d j k = entry A d j k" if "lo \<le> k" "k \<le> j - 1" for k
    using that j wf by (intro entry_in_band) (auto simp: in_band_def lo_def bs_wf_def)
  have z: "entry A d j k = 0" if "0 \<le> k" "k \<le> j - 1" "k < lo \<or> j - 1 < k" for k
    using that by (intro entry_out) (auto simp: in_band_def lo_def)
  have st: "solveAdj_bwd A d j b = fold (elim_gen (\<lambda>i. bs_at A d j i) j) [lo..j - 1] b"
    by (simp add: solveAdj_bwd_def elim_row_adj_gen lo_def)
  note L = elim_loop_band [OF sh lo hi(1) j _ c lo hi(2), of "\<lambda>i. bs_at A d j i" "\<lambda>k. entry A d j k", OF _ g z]
  have "view (solveAdj_bwd A d j b) c k = ustep (\<lambda>i j. entry A d j i) False j (view b c) k" for k
    unfolding st using L by (auto simp: ustep_def Let_def)
  then show ?thesis using L st by (auto intro!: ext)
qed

lemma solve_bwd_view:
  assumes wf: "bs_wf A d" and sh: "shape m (bs_N A) b" and j: "0 \<le> j" "j < bs_N A" and c: "c < m"
  shows "shape m (bs_N A) (solve_bwd A d j b) \<and>
         view (solve_bwd A d j b) c = ustep (entry A d) True j (view b c)"
proof -
  define lo where "lo = max 0 (j - bs_upperBw A)"
  define b1 where "b1 = b[nat j := row_div (b ! nat j) (entry A d j j)]"
  have jj: "bs_at A d j j = entry A d j j"
    using in_band_diag [OF wf j] by (rule entry_in_band)
  have b1: "shape m (bs_N A) b1"
    "view b1 c = (\<lambda>k. if k = j then view b c j / entry A d j j else view b c k)"
    using row_div_view [OF sh j c, of "entry A d j j"] unfolding b1_def by blast+
  have lo: "0 \<le> lo" by (simp add: lo_def)
  have hi: "j - 1 < bs_N A" "j - 1 \<le> j - 1" using j by simp_all
  have g: "bs_at A d k j = entry A d k j" if "lo \<le> k" "k \<le> j - 1" for k
    using that j wf by (intro entry_in_band) (auto simp: in_band_def lo_def bs_wf_def)
  have z: "entry A d k j = 0" if "0 \<le> k" "k \<le> j - 1" "k < lo \<or> j - 1 < k" for k
    using that by (intro entry_out) (auto simp: in_band_def lo_def)
  have st: "solve_bwd A d j b = fold (elim_gen (\<lambda>i. bs_at A d i j) j) [lo..j - 1] b1"
    by (simp add: solve_bwd_def elim_row_gen lo_def b1_def Let_def jj)
  note L = elim_loop_band [OF b1(1) lo hi(1) j _ c lo hi(2), of "\<lambda>i. bs_at A d i j" "\<lambda>k. entry A d k j", OF _ g z]
  have "view (solve_bwd A d j b) c k = ustep (entry A d) True j (view b c) k" for k
    unfolding st using L by (auto simp: ustep_def Let_def b1(2))
  then show ?thesis using L st by (auto intro!: ext)
qed

lemma solveAdj_fwd_view:
  assumes wf: "bs_wf A d" and sh: "shape m (bs_N A) b" and j: "0 \<le> j" "j < bs_N A" and c: "c < m"
  shows "shape m (bs_N A) (solveAdj_fwd A d j b) \<and>
         view (solveAdj_fwd A d j b) c = lstep (bs_N A) (\<lambda>i j. entry A d j i) True j (view b c)"
proof -
  define hi where "hi = min (j + bs_upperBw A) (bs_N A - 1)"
  define b1 where "b1 = b[nat j := row_div (b ! nat j) (entry A d j j)]"
  have jj: "bs_at A d j j = entry A d j j"
    using in_band_diag [OF wf j] by (rule entry_in_band)
  have b1: "shape m (bs_N A) b1"
    "view b1 c = (\<lambda>k. if k = j then view b c j / entry A d j j else view b c k)"
    using row_div_view [OF sh j c, of "entry A d j j"] unfolding b1_def by blast+
  have hi: "hi < bs_N A" "hi \<le> bs_N A - 1" by (simp_all add: hi_def)
  have lo: "0 \<le> j + 1" "j + 1 \<le> j + 1" using j by simp_all
  have g: "bs_at A d j k = entry A d j k" if "j + 1 \<le> k" "k \<le> hi" for k
    using that j wf by (intro entry_in_band) (auto simp: in_band_def hi_def bs_wf_def)
  have z: "entry A d j k = 0" if "j + 1 \<le> k" "k \<le> bs_N A - 1" "k < j + 1 \<or> hi < k" for k
    using that by (intro entry_out) (auto simp: in_band_def hi_def)
  have st: "solveAdj_fwd A d j b = fold (elim_gen (\<lambda>i. bs_at A d j i) j) [j + 1..hi] b1"
    by (simp add: solveAdj_fwd_def elim_row_adj_gen hi_def b1_def Let_def jj)
  note L = elim_loop_band [OF b1(1) lo(1) hi(1) j _ c lo(2) hi(2), of "\<lambda>i. bs_at A d j i" "\<lambda>k. entry A d j k", OF _ g z]
  have "view (solveAdj_fwd A d j b) c k = lstep (bs_N A) (\<lambda>i j. entry A d j i) True j (view b c) k" for k
    unfolding st using L by (auto simp: lstep_def Let_def b1(2))
  then show ?thesis using L st by (auto intro!: ext)
qed

lemma solve_view:
  assumes wf: "bs_wf A d" and sh: "shape m (bs_N A) b" and c: "c < m"
  shows "shape m (bs_N A) (solve A d b) \<and>
         view (solve A d b) c = asolve (bs_N A) (entry A d) (view b c)"
proof -
  let ?R = "\<lambda>b' v. shape m (bs_N A) b' \<and> view b' c = v"
  have 1: "?R (fold (solve_fwd A d) [0..bs_N A - 1] b)
              (fold (lstep (bs_N A) (entry A d) False) [0..bs_N A - 1] (view b c))"
    by (rule fold_refine [where R = ?R]) (use sh solve_fwd_view [OF wf _ _ _ c] in auto)
  have "?R (fold (solve_bwd A d) (rev [0..bs_N A - 1]) (fold (solve_fwd A d) [0..bs_N A - 1] b))
           (fold (ustep (entry A d) True) (rev [0..bs_N A - 1])
              (fold (lstep (bs_N A) (entry A d) False) [0..bs_N A - 1] (view b c)))"
    by (rule fold_refine [where R = ?R]) (use 1 solve_bwd_view [OF wf _ _ _ c] in auto)
  then show ?thesis by (simp add: solve_def asolve_def)
qed

lemma solveAdj_view:
  assumes wf: "bs_wf A d" and sh: "shape m (bs_N A) b" and c: "c < m"
  shows "shape m (bs_N A) (solveAdj A d b) \<and>
         view (solveAdj A d b) c = asolveAdj (bs_N A) (entry A d) (view b c)"
proof -
  let ?R = "\<lambda>b' v. shape m (bs_N A) b' \<and> view b' c = v"
  let ?T = "\<lambda>i j. entry A d j i"
  have 1: "?R (fold (solveAdj_fwd A d) [0..bs_N A - 1] b)
              (fold (lstep (bs_N A) ?T True) [0..bs_N A - 1] (view b c))"
    by (rule fold_refine [where R = ?R]) (use sh solveAdj_fwd_view [OF wf _ _ _ c] in auto)
  have "?R (fold (solveAdj_bwd A d) (rev [0..bs_N A - 1]) (fold (solveAdj_fwd A d) [0..bs_N A - 1] b))
           (fold (ustep ?T False) (rev [0..bs_N A - 1])
              (fold (lstep (bs_N A) ?T True) [0..bs_N A - 1] (view b c)))"
    by (rule fold_refine [where R = ?R]) (use 1 solveAdj_bwd_view [OF wf _ _ _ c] in auto)
  then show ?thesis by (simp add: solveAdj_def asolveAdj_def)
qed

lemma fold_pres:
  assumes "P s" and "\<And>i s. i \<in> set xs \<Longrightarrow> P s \<Longrightarrow> P (f i s)"
  shows "P (fold f xs s)"
  using assms by (induction xs arbitrary: s) simp_all

lemma elim_gen_shape:
  assumes sh: "shape m n b" and i: "0 \<le> i" "i < n" and j: "0 \<le> j" "j < n"
  shows "shape m n (elim_gen g j i b)"
proof -
  have "length (row_sub (g i) (b ! nat i) (b ! nat j)) = m"
    using shape_row [OF sh i] shape_row [OF sh j] by (simp add: row_sub_def)
  then show ?thesis using sh shape_update [OF sh] by (simp add: elim_gen_def)
qed

lemma elim_fold_shape:
  assumes sh: "shape m n b" and lo: "0 \<le> lo" and hi: "hi < n" and j: "0 \<le> j" "j < n"
  shows "shape m n (fold (elim_gen g j) [lo..hi] b)"
  by (rule fold_pres [where P = "shape m n", OF sh]) (use lo hi j in \<open>auto intro: elim_gen_shape\<close>)

lemma row_div_shape:
  assumes sh: "shape m n b" and j: "0 \<le> j" "j < n"
  shows "shape m n (b[nat j := row_div (b ! nat j) a])"
  using shape_row [OF sh j] by (intro shape_update [OF sh]) (simp add: row_div_def)

lemma solve_shape:
  assumes sh: "shape m (bs_N A) b"
  shows "shape m (bs_N A) (solve A d b)"
proof -
  have 1: "shape m (bs_N A) (solve_fwd A d j s)"
    if "shape m (bs_N A) s" "j \<in> set [0..bs_N A - 1]" for j s
    unfolding solve_fwd_def elim_row_gen Let_def
    using that by (intro elim_fold_shape) auto
  have 2: "shape m (bs_N A) (solve_bwd A d j s)"
    if "shape m (bs_N A) s" "j \<in> set (rev [0..bs_N A - 1])" for j s
    unfolding solve_bwd_def elim_row_gen Let_def
    using that by (intro elim_fold_shape row_div_shape) auto
  show ?thesis
    unfolding solve_def
    by (intro fold_pres [where P = "shape m (bs_N A)"] sh 1 2)
qed

lemma solveAdj_shape:
  assumes sh: "shape m (bs_N A) b"
  shows "shape m (bs_N A) (solveAdj A d b)"
proof -
  have 1: "shape m (bs_N A) (solveAdj_fwd A d j s)"
    if "shape m (bs_N A) s" "j \<in> set [0..bs_N A - 1]" for j s
    unfolding solveAdj_fwd_def elim_row_adj_gen Let_def
    using that by (intro elim_fold_shape row_div_shape) auto
  have 2: "shape m (bs_N A) (solveAdj_bwd A d j s)"
    if "shape m (bs_N A) s" "j \<in> set (rev [0..bs_N A - 1])" for j s
    unfolding solveAdj_bwd_def elim_row_adj_gen Let_def
    using that by (intro elim_fold_shape) auto
  show ?thesis
    unfolding solveAdj_def
    by (intro fold_pres [where P = "shape m (bs_N A)"] sh 1 2)
qed

section \<open>Soundness of the solvers\<close>

lemma dominant_lu:
  assumes wf: "bs_wf A d" and dom: "row_dominant A d \<or> col_dominant A d"
  shows "bs_wf A (factorizeLU A d) \<and>
         lu_prod (bs_N A) (entry A d) (entry A (factorizeLU A d))"
proof -
  have "row_dom (bs_N A) 0 (entry A d) \<or> col_dom (bs_N A) 0 (entry A d)"
    using dom by (auto simp: row_dominant_def col_dominant_def row_dom_def col_dom_def)
  moreover have "0 \<le> bs_N A" using wf by (simp add: bs_wf_def)
  ultimately show ?thesis
    using factorizeLU_entry [OF wf] gauss_result [of "bs_N A" "entry A d"] by simp
qed

lemma sum_view:
  assumes "shape m n X"
  shows "(\<Sum>j\<in>{0..<n}. f j * X ! nat j ! c) = (\<Sum>j\<in>{0..<n}. f j * view X c j)"
  using assms by (intro sum.cong) (simp_all add: view_def shape_def)

lemma shape_eqI:
  assumes X: "shape m n X" and Y: "shape m n Y"
    and eq: "\<And>i c. 0 \<le> i \<Longrightarrow> i < n \<Longrightarrow> c < m \<Longrightarrow> view Y c i = view X c i"
  shows "Y = X"
proof (rule nth_equalityI)
  show len: "length Y = length X" using X Y by (simp add: shape_def)
  fix k assume k: "k < length Y"
  then have k': "0 \<le> int k" "int k < n" using Y by (simp_all add: shape_def)
  have lx: "length (X ! k) = m" and ly: "length (Y ! k) = m"
    using shape_row [OF X k'] shape_row [OF Y k'] by simp_all
  show "Y ! k = X ! k"
  proof (rule nth_equalityI)
    show "length (Y ! k) = length (X ! k)" using lx ly by simp
    fix c assume "c < length (Y ! k)"
    then have "c < m" using ly by simp
    then show "Y ! k ! c = X ! k ! c"
      using eq [OF k'] k len by (simp add: view_def)
  qed
qed

lemma solve_sound:
  assumes wf: "bs_wf A d" and dom: "row_dominant A d \<or> col_dominant A d"
    and sh: "shape m (bs_N A) B"
  shows "shape m (bs_N A) (solve A (factorizeLU A d) B)"
    and "is_solution A d m (solve A (factorizeLU A d) B) B"
    and "shape m (bs_N A) Y \<Longrightarrow> is_solution A d m Y B \<Longrightarrow> Y = solve A (factorizeLU A d) B"
proof -
  let ?n = "bs_N A" and ?d = "factorizeLU A d"
  let ?X = "solve A ?d B"
  have wf': "bs_wf A ?d" and lu: "lu_prod ?n (entry A d) (entry A ?d)"
    using dominant_lu [OF wf dom] by simp_all
  have n: "0 \<le> ?n" using wf by (simp add: bs_wf_def)
  show shX: "shape m ?n ?X" using sh by (rule solve_shape)
  have vX: "view ?X c = asolve ?n (entry A ?d) (view B c)" if "c < m" for c
    using solve_view [OF wf' sh that] by simp
  have sol: "(\<Sum>j\<in>{0..<?n}. entry A d i j * view ?X c j) = view B c i"
    if "0 \<le> i" "i < ?n" "c < m" for i c
    unfolding vX [OF that(3)] by (rule asolve_correct [OF lu n that(1,2)])
  show "is_solution A d m ?X B"
    unfolding is_solution_def
  proof (intro ballI)
    fix i c assume i: "i \<in> {0..<?n}" and c: "c \<in> {0..<m}"
    have "B ! nat i ! c = view B c i" using sh i by (simp add: view_def shape_def)
    then show "(\<Sum>j\<in>{0..<?n}. entry A d i j * ?X ! nat j ! c) = B ! nat i ! c"
      using sol [of i c] i c by (simp add: sum_view [OF shX])
  qed
  assume shY: "shape m ?n Y" and Y: "is_solution A d m Y B"
  show "Y = ?X"
  proof (rule shape_eqI [OF shX shY])
    fix i c assume i: "0 \<le> i" "i < ?n" and c: "c < m"
    have "(\<Sum>j\<in>{0..<?n}. entry A d r j * (view Y c j - view ?X c j)) = 0"
      if r: "0 \<le> r" "r < ?n" for r
    proof -
      have "(\<Sum>j\<in>{0..<?n}. entry A d r j * view Y c j) = view B c r"
        using Y r c sh by (simp add: is_solution_def sum_view [OF shY] view_def shape_def)
      then show ?thesis using sol [OF r c] by (simp add: right_diff_distrib sum_subtractf)
    qed
    then have "view Y c i - view ?X c i = 0"
      by (rule lu_unique [OF lu _ i])
    then show "view Y c i = view ?X c i" by simp
  qed
qed

lemma solveAdj_sound:
  assumes wf: "bs_wf A d" and dom: "row_dominant A d \<or> col_dominant A d"
    and sh: "shape m (bs_N A) B"
  shows "shape m (bs_N A) (solveAdj A (factorizeLU A d) B)"
    and "is_solution_adj A d m (solveAdj A (factorizeLU A d) B) B"
    and "shape m (bs_N A) Y \<Longrightarrow> is_solution_adj A d m Y B \<Longrightarrow>
         Y = solveAdj A (factorizeLU A d) B"
proof -
  let ?n = "bs_N A" and ?d = "factorizeLU A d"
  let ?X = "solveAdj A ?d B"
  have wf': "bs_wf A ?d" and lu: "lu_prod ?n (entry A d) (entry A ?d)"
    using dominant_lu [OF wf dom] by simp_all
  have n: "0 \<le> ?n" using wf by (simp add: bs_wf_def)
  show shX: "shape m ?n ?X" using sh by (rule solveAdj_shape)
  have vX: "view ?X c = asolveAdj ?n (entry A ?d) (view B c)" if "c < m" for c
    using solveAdj_view [OF wf' sh that] by simp
  have sol: "(\<Sum>j\<in>{0..<?n}. entry A d j i * view ?X c j) = view B c i"
    if "0 \<le> i" "i < ?n" "c < m" for i c
    unfolding vX [OF that(3)] by (rule asolveAdj_correct [OF lu n that(1,2)])
  show "is_solution_adj A d m ?X B"
    unfolding is_solution_adj_def
  proof (intro ballI)
    fix i c assume i: "i \<in> {0..<?n}" and c: "c \<in> {0..<m}"
    have "B ! nat i ! c = view B c i" using sh i by (simp add: view_def shape_def)
    then show "(\<Sum>j\<in>{0..<?n}. entry A d j i * ?X ! nat j ! c) = B ! nat i ! c"
      using sol [of i c] i c by (simp add: sum_view [OF shX])
  qed
  assume shY: "shape m ?n Y" and Y: "is_solution_adj A d m Y B"
  show "Y = ?X"
  proof (rule shape_eqI [OF shX shY])
    fix i c assume i: "0 \<le> i" "i < ?n" and c: "c < m"
    have "(\<Sum>j\<in>{0..<?n}. entry A d j r * (view Y c j - view ?X c j)) = 0"
      if r: "0 \<le> r" "r < ?n" for r
    proof -
      have "(\<Sum>j\<in>{0..<?n}. entry A d j r * view Y c j) = view B c r"
        using Y r c sh by (simp add: is_solution_adj_def sum_view [OF shY] view_def shape_def)
      then show ?thesis using sol [OF r c] by (simp add: right_diff_distrib sum_subtractf)
    qed
    then have "view Y c i - view ?X c i = 0"
      by (rule lu_unique_adj [OF lu _ i])
    then show "view Y c i = view ?X c i" by simp
  qed
qed

lemma in_band_transpose: "in_band (transpose_system A) i j = in_band A j i"
  by (auto simp: in_band_def transpose_system_def)

lemma transpose_N: "bs_N (transpose_system A) = bs_N A"
  by (simp add: transpose_system_def)

lemma transpose_size: "actualSize (transpose_system A) = actualSize A"
  by (simp add: transpose_system_def actualSize_def add.commute)

lemma transpose_wf: "bs_wf A d \<Longrightarrow> bs_wf (transpose_system A) (transpose_data A d)"
  by (simp add: bs_wf_def transpose_system_def transpose_data_def actualSize_def add.commute)

lemma transpose_entry:
  assumes wf: "bs_wf A d"
  shows "entry (transpose_system A) (transpose_data A d) i j = entry A d j i"
proof (cases "in_band A j i")
  case False
  then show ?thesis by (simp add: entry_def in_band_transpose)
next
  case True
  let ?A = "transpose_system A"
  have b: "in_band ?A i j" using True by (simp add: in_band_transpose)
  have n: "0 \<le> j" "j < bs_N A" using True by (auto simp: in_band_def)
  have off: "offset ?A i j = (i - j + bs_lowerBw A) * bs_N A + j"
    by (simp add: offset_def transpose_system_def)
  define k where "k = nat (offset ?A i j)"
  have lt: "k < length d"
    using offset_upper [OF b] offset_lower [OF b] wf
    unfolding bs_wf_def transpose_size k_def by linarith
  have k: "int k = (i - j + bs_lowerBw A) * bs_N A + j"
    using offset_lower [OF b] off by (simp add: k_def)
  have m: "((i - j + bs_lowerBw A) * bs_N A + j) mod bs_N A = j"
    and dv: "((i - j + bs_lowerBw A) * bs_N A + j) div bs_N A = i - j + bs_lowerBw A"
    using n by simp_all
  have "transpose_data A d ! k = bs_at A d j i"
    using lt True n by (simp add: transpose_data_def k m dv Let_def)
  then show ?thesis using True b by (simp add: entry_def bs_at_def k_def)
qed

lemma transpose_dominant:
  assumes wf: "bs_wf A d"
  shows "row_dominant (transpose_system A) (transpose_data A d) = col_dominant A d"
    and "col_dominant (transpose_system A) (transpose_data A d) = row_dominant A d"
  by (simp_all add: row_dominant_def col_dominant_def transpose_entry [OF wf] transpose_N)

lemma transpose_solution:
  assumes wf: "bs_wf A d"
  shows "is_solution (transpose_system A) (transpose_data A d) m X B = is_solution_adj A d m X B"
  by (simp add: is_solution_def is_solution_adj_def transpose_entry [OF wf] transpose_N)

lemma solveAdj_transpose:
  assumes wf: "bs_wf A d" and dom: "row_dominant A d \<or> col_dominant A d"
    and sh: "shape m (bs_N A) B"
  shows "solve (transpose_system A) (factorizeLU (transpose_system A) (transpose_data A d)) B =
         solveAdj A (factorizeLU A d) B"
proof -
  let ?A = "transpose_system A" and ?d = "transpose_data A d"
  have wf': "bs_wf ?A ?d" using wf by (rule transpose_wf)
  have dom': "row_dominant ?A ?d \<or> col_dominant ?A ?d"
    using dom by (auto simp: transpose_dominant [OF wf])
  have N: "bs_N ?A = bs_N A" by (rule transpose_N)
  have sh': "shape m (bs_N ?A) B" using sh by (simp add: N)
  have "shape m (bs_N A) (solve ?A (factorizeLU ?A ?d) B)"
    using solve_sound(1) [OF wf' dom' sh'] by (simp add: N)
  moreover have "is_solution_adj A d m (solve ?A (factorizeLU ?A ?d) B) B"
    using solve_sound(2) [OF wf' dom' sh'] by (simp add: transpose_solution [OF wf])
  ultimately show ?thesis by (rule solveAdj_sound(3) [OF wf dom sh])
qed

section \<open>The fit\<close>

lemma length_released [simp]: "length (released A h) = length h"
  by (simp add: released_def destroy_def split: option.splits)

lemma setConditions_ok:
  assumes n: "1 \<le> n"
  shows "setConditions hp tp n (S, h) =
         Inr (S\<lparr>spl_N := n, spl_headP := hp, spl_tailP := tp,
                spl_A := (spl_A S)\<lparr>bs_N := n - 1, bs_lowerBw := 1, bs_upperBw := 1,
                                   bs_ptrData := Some (length h)\<rparr>,
                spl_b := replicate (nat (n - 1)) [0, 0]\<rparr>,
              released (spl_A S) h @ [Some (replicate (nat ((n - 1) * 3)) 0)])"
  using n
  by (cases "bs_ptrData (spl_A S)")
     (simp_all add: setConditions_def create_def destroy_def released_def Let_def)

lemma waypoints_ok:
  assumes n: "1 \<le> n" and len: "nat (n - 1) \<le> length inPs"
  shows "waypoints n hp tp inPs = Inr (hp # take (nat (n - 1)) inPs @ [tp])"
proof -
  define X2 where "X2 = (replicate (nat (n + 1)) (0, 0))[0 := hp, nat n := tp]"
  let ?P = "\<lambda>i (r :: error + Vector2d list). \<exists>X. r = Inr X \<and> length X = nat (n + 1) \<and> X ! 0 = hp \<and> X ! nat n = tp \<and>
               (\<forall>k. 1 \<le> k \<and> k < i \<longrightarrow> X ! nat k = inPs ! nat (k - 1))"
  have le: "(1::int) \<le> n - 1 + 1" using n by simp
  have "?P (n - 1 + 1) (fold (copy_inner inPs) [1..n - 1] (Inr X2))"
  proof (rule fold_upto_inv [where P = ?P, OF _ _ le])
    show "?P 1 (Inr X2)" using n by (auto simp: X2_def nth_list_update)
  next
    fix i r assume i: "1 \<le> i" "i \<le> n - 1" and P: "?P i r"
    then obtain X where X: "r = Inr X" "length X = nat (n + 1)" "X ! 0 = hp" "X ! nat n = tp"
      "\<forall>k. 1 \<le> k \<and> k < i \<longrightarrow> X ! nat k = inPs ! nat (k - 1)" by blast
    have in_range: "nat (i - 1) < length inPs" using i len by linarith
    let ?X = "X[nat i := inPs ! nat (i - 1)]"
    have "copy_inner inPs i r = Inr ?X" using X(1) in_range by (simp add: copy_inner_def)
    moreover have "?X ! 0 = hp" "?X ! nat n = tp" using X i by (simp_all add: nth_list_update)
    moreover have "?X ! nat k = inPs ! nat (k - 1)" if "1 \<le> k" "k < i + 1" for k
    proof (cases "k = i")
      case True
      then show ?thesis using X(2) i by simp
    next
      case False
      then have "nat k \<noteq> nat i" "k < i" using that i by linarith+
      then show ?thesis using X(5) that by simp
    qed
    ultimately show "?P (i + 1) (copy_inner inPs i r)" using X(2) by auto
  qed
  then obtain X where X: "fold (copy_inner inPs) [1..n - 1] (Inr X2) = Inr X"
    "length X = nat (n + 1)" "X ! 0 = hp" "X ! nat n = tp"
    "\<forall>k. 1 \<le> k \<and> k < n \<longrightarrow> X ! nat k = inPs ! nat (k - 1)" by auto
  have "X = hp # take (nat (n - 1)) inPs @ [tp]"
  proof (rule nth_equalityI)
    show "length X = length (hp # take (nat (n - 1)) inPs @ [tp])"
      using X(2) n len by simp
    fix k assume k: "k < length X"
    consider "k = 0" | "1 \<le> k" "k < nat n" | "k = nat n" using k X(2) n by linarith
    then show "X ! k = (hp # take (nat (n - 1)) inPs @ [tp]) ! k"
    proof cases
      case 1
      then show ?thesis using X(3) by simp
    next
      case 2
      then have "1 \<le> int k \<and> int k < n" by linarith
      then have "X ! nat (int k) = inPs ! nat (int k - 1)" using X(5) by blast
      moreover have "k - 1 < length (take (nat (n - 1)) inPs)" using 2 len by simp
      ultimately show ?thesis using 2 len
        by (simp add: nth_Cons' nth_append nat_diff_distrib')
    next
      case 3
      have "nat n - Suc 0 = nat (n - 1)" "nat n \<noteq> 0" using n by linarith+
      then show ?thesis using 3 X(4) len by (simp add: nth_Cons' nth_append)
    qed
  qed
  then show ?thesis using X(1) n by (simp add: waypoints_def X2_def Let_def)
qed

lemma fill_snd:
  "snd (fold (fill_row A n X) xs (d, b)) =
   fold (\<lambda>i b. b[nat i := row_of (smul 3 (vsub (X ! nat (i + 2)) (X ! nat i)))]) xs b"
  by (induction xs arbitrary: d b) (simp_all add: fill_row_def Let_def)

lemma fill_shape:
  assumes "shape 2 m b"
  shows "shape 2 m (snd (fold (fill_row A n X) xs (d, b)))"
  unfolding fill_snd
  by (rule fold_pres [where P = "shape 2 m", OF assms]) (simp add: shape_update row_of_def)

lemma tangent_loop:
  fixes b2 :: "real list list"
  assumes n: "1 \<le> n"
  defines "D \<equiv> fold (\<lambda>i D. D[nat i := b2 ! nat (i - 1)]) [1..n - 1] (replicate (nat (n + 1)) [0, 0])"
  shows "length D = nat (n + 1) \<and> D ! 0 = [0, 0] \<and> D ! nat n = [0, 0]"
  unfolding D_def
proof (rule fold_pres [where P = "\<lambda>D. length D = nat (n + 1) \<and> D ! 0 = [0, 0] \<and> D ! nat n = [0, 0]"])
  show "length (replicate (nat (n + 1)) [0, 0::real]) = nat (n + 1) \<and>
        replicate (nat (n + 1)) [0, 0::real] ! 0 = [0, 0] \<and>
        replicate (nat (n + 1)) [0, 0::real] ! nat n = [0, 0]"
    using n by simp
next
  fix i and D :: "real list list"
  assume i: "i \<in> set [1..n - 1]"
    and D: "length D = nat (n + 1) \<and> D ! 0 = [0, 0] \<and> D ! nat n = [0, 0]"
  have "nat i \<noteq> 0" "nat i \<noteq> nat n" using i by auto
  then show "length (D[nat i := b2 ! nat (i - 1)]) = nat (n + 1) \<and>
        D[nat i := b2 ! nat (i - 1)] ! 0 = [0, 0] \<and> D[nat i := b2 ! nat (i - 1)] ! nat n = [0, 0]"
    using D by (simp add: nth_list_update)
qed

lemma col_of_row_of [simp]: "col_of (row_of v) = v"
  by (simp add: col_of_def row_of_def)

lemma length_set_block [simp]: "length (set_block b r M) = length b"
  by (simp add: set_block_def)

lemma get_set_block_same:
  assumes "0 \<le> i" "nat (i * 4 + 3) < length b" "length M = 4"
  shows "get_block (set_block b (i * 4) M) (i * 4) = M"
proof -
  have ne: "nat (i * 4) \<noteq> nat (i * 4 + 1)" "nat (i * 4) \<noteq> nat (i * 4 + 2)"
    "nat (i * 4) \<noteq> nat (i * 4 + 3)" "nat (i * 4 + 1) \<noteq> nat (i * 4 + 2)"
    "nat (i * 4 + 1) \<noteq> nat (i * 4 + 3)" "nat (i * 4 + 2) \<noteq> nat (i * 4 + 3)"
    using assms(1) by linarith+
  have lt: "nat (i * 4) < length b" "nat (i * 4 + 1) < length b" "nat (i * 4 + 2) < length b"
    using assms(1,2) by linarith+
  have "M = [M ! 0, M ! 1, M ! 2, M ! 3]"
    using assms(3) by (intro nth_equalityI) (auto simp: nth_Cons' numeral_eq_Suc less_Suc_eq)
  moreover have "get_block (set_block b (i * 4) M) (i * 4) = [M ! 0, M ! 1, M ! 2, M ! 3]"
    using ne lt assms(2) by (simp add: get_block_def set_block_def nth_list_update)
  ultimately show ?thesis by simp
qed

lemma get_set_block_other:
  assumes "0 \<le> i" "0 \<le> k" "k \<noteq> i"
  shows "get_block (set_block b (i * 4) M) (k * 4) = get_block b (k * 4)"
proof -
  have "nat (k * 4 + a) \<noteq> nat (i * 4 + c)"
    if "0 \<le> a" "a \<le> 3" "0 \<le> c" "c \<le> 3" for a c :: int
    using that assms by linarith
  from this [of 0 0] this [of 0 1] this [of 0 2] this [of 0 3]
       this [of 1 0] this [of 1 1] this [of 1 2] this [of 1 3]
       this [of 2 0] this [of 2 1] this [of 2 2] this [of 2 3]
       this [of 3 0] this [of 3 1] this [of 3 2] this [of 3 3]
  show ?thesis by (simp add: get_block_def set_block_def)
qed

lemma table_loop:
  fixes M :: "int \<Rightarrow> Vector2d list"
  assumes n: "0 \<le> n" and M: "\<And>i. length (M i) = 4"
  defines "b4 \<equiv> fold (\<lambda>i b. set_block b (i * 4) (M i)) [0..n - 1] (replicate (nat (n * 4)) [0, 0])"
  shows "length b4 = nat (n * 4) \<and> (\<forall>k. 0 \<le> k \<and> k < n \<longrightarrow> get_block b4 (k * 4) = M k)"
proof -
  let ?P = "\<lambda>i b. length b = nat (n * 4) \<and> (\<forall>k. 0 \<le> k \<and> k < i \<longrightarrow> get_block b (k * 4) = M k)"
  have le: "(0::int) \<le> n - 1 + 1" using n by simp
  have "?P (n - 1 + 1) b4"
    unfolding b4_def
  proof (rule fold_upto_inv [where P = ?P, OF _ _ le])
    show "?P 0 (replicate (nat (n * 4)) [0, 0])" by auto
  next
    fix i b assume i: "0 \<le> i" "i \<le> n - 1" and P: "?P i b"
    have lt: "nat (i * 4 + 3) < length b" using P i by simp
    have "get_block (set_block b (i * 4) (M i)) (k * 4) = M k" if "0 \<le> k" "k < i + 1" for k
    proof (cases "k = i")
      case True
      then show ?thesis using get_set_block_same [OF i(1) lt M] by simp
    next
      case False
      then show ?thesis using get_set_block_other [OF i(1) that(1) False] P that by simp
    qed
    then show "?P (i + 1) (set_block b (i * 4) (M i))" using P by simp
  qed
  then show ?thesis by simp
qed

lemma length_coeffMat [simp]: "length (coeffMat X D i) = 4"
  by (simp add: coeffMat_def)

lemma setInnerPoints_ok:
  assumes n: "1 \<le> spl_N S" and len: "nat (spl_N S - 1) \<le> length inPs"
    and d0: "deref h (spl_A S) = Some d0"
  shows "\<exists>S' h' D. setInnerPoints inPs (S, h) = Inr (S', h') \<and>
           fitted_table (spl_N S) (spl_headP S) (spl_tailP S) inPs S' D"
proof -
  let ?n = "spl_N S" and ?A = "spl_A S"
  let ?X = "spl_headP S # take (nat (?n - 1)) inPs @ [spl_tailP S]"
  define db where "db = fold (fill_row ?A ?n ?X) [0..?n - 2] (d0, spl_b S)"
  define d2 where "d2 = factorizeLU ?A (fst db)"
  define b2 where "b2 = solve ?A d2 (snd db)"
  define D where "D = fold (\<lambda>i D. D[nat i := b2 ! nat (i - 1)]) [1..?n - 1]
                        (replicate (nat (?n + 1)) [0, 0])"
  define b4 where "b4 = fold (\<lambda>i b. set_block b (i * 4) (coeffMat ?X D i)) [0..?n - 1]
                          (replicate (nat (?n * 4)) [0, 0])"
  have w: "waypoints ?n (spl_headP S) (spl_tailP S) inPs = Inr ?X"
    using n len by (rule waypoints_ok)
  have res: "setInnerPoints inPs (S, h) =
             Inr (S\<lparr>spl_b := b4\<rparr>, h[the (bs_ptrData ?A) := Some d2])"
    by (simp add: setInnerPoints_def w d0 Let_def split_def db_def d2_def b2_def D_def b4_def)
  have D: "length D = nat (?n + 1) \<and> D ! 0 = [0, 0] \<and> D ! nat ?n = [0, 0]"
    unfolding D_def using n by (rule tangent_loop)
  have n0: "0 \<le> ?n" using n by simp
  have T: "length b4 = nat (?n * 4) \<and>
           (\<forall>k. 0 \<le> k \<and> k < ?n \<longrightarrow> get_block b4 (k * 4) = coeffMat ?X D k)"
    unfolding b4_def by (rule table_loop [OF n0]) simp
  have "fitted_table ?n (spl_headP S) (spl_tailP S) inPs (S\<lparr>spl_b := b4\<rparr>) D"
    using D T by (simp add: fitted_table_def)
  then show ?thesis using res by blast
qed

lemma fit_ok:
  assumes n: "1 \<le> n" and len: "nat (n - 1) \<le> length inPs"
  shows "\<exists>S' h' D. fit hp tp n inPs (S, h) = Inr (S', h') \<and> fitted_table n hp tp inPs S' D"
proof -
  let ?S = "S\<lparr>spl_N := n, spl_headP := hp, spl_tailP := tp,
                spl_A := (spl_A S)\<lparr>bs_N := n - 1, bs_lowerBw := 1, bs_upperBw := 1,
                                   bs_ptrData := Some (length h)\<rparr>,
                spl_b := replicate (nat (n - 1)) [0, 0]\<rparr>"
  let ?h = "released (spl_A S) h @ [Some (replicate (nat ((n - 1) * 3)) 0)]"
  have sc: "setConditions hp tp n (S, h) = Inr (?S, ?h)" using n by (rule setConditions_ok)
  have d: "deref ?h (spl_A ?S) = Some (replicate (nat ((n - 1) * 3)) 0)"
    by (simp add: deref_def nth_append)
  have "\<exists>S' h' D. setInnerPoints inPs (?S, ?h) = Inr (S', h') \<and>
           fitted_table (spl_N ?S) (spl_headP ?S) (spl_tailP ?S) inPs S' D"
    by (rule setInnerPoints_ok [OF _ _ d]) (use n len in simp_all)
  then show ?thesis by (simp add: fit_def sc)
qed

lemma fold_emplace:
  "fold (\<lambda>i c. emplace_back c dur (f i)) xs c0 = c0 @ map (\<lambda>i. \<lparr>duration = dur, coeffs = f i\<rparr>) xs"
  by (induction xs arbitrary: c0) (simp_all add: emplace_back_def)

lemma getCurve_map:
  "getCurve S curve =
   map (\<lambda>i. \<lparr>duration = 1, coeffs = get_block (spl_b S) (i * 4)\<rparr>) [0..spl_N S - 1]"
  by (simp add: getCurve_def fold_emplace clear_def)

lemma getCurve_nth:
  assumes "0 \<le> i" "i < spl_N S"
  shows "getCurve S curve ! nat i = \<lparr>duration = 1, coeffs = get_block (spl_b S) (i * 4)\<rparr>"
  using assms by (simp add: getCurve_map)

lemma vec_simps:
  "vadd (a, b) (c, d) = (a + c, b + d)" "vsub (a, b) (c, d) = (a - c, b - d)"
  "smul s (a, b) = (s * a, s * b)"
  by (simp_all add: vadd_def vsub_def smul_def)

lemma position_end:
  "position (coeffMat X D i) 1 = X ! nat (i + 1)"
  by (cases "X ! nat i"; cases "X ! nat (i + 1)"; cases "col_of (D ! nat i)";
      cases "col_of (D ! nat (i + 1))")
     (simp add: position_def coeffMat_def vec_simps)

lemma position_start: "position (coeffMat X D i) 0 = X ! nat i"
  by (cases "X ! nat i") (simp add: position_def coeffMat_def vadd_def smul_def)

lemma velocity_end: "velocity (coeffMat X D i) 1 = col_of (D ! nat (i + 1))"
  by (cases "X ! nat i"; cases "X ! nat (i + 1)"; cases "col_of (D ! nat i)";
      cases "col_of (D ! nat (i + 1))")
     (simp add: velocity_def coeffMat_def vec_simps)

lemma velocity_start: "velocity (coeffMat X D i) 0 = col_of (D ! nat i)"
  by (cases "col_of (D ! nat i)") (simp add: velocity_def coeffMat_def vadd_def smul_def)

section \<open>Reconfiguration\<close>

lemma ptr_offset: "offset (A\<lparr>bs_ptrData := x\<rparr>) = offset A"
  by (intro ext) (simp add: offset_def)

lemma ptr_bs_at: "bs_at (A\<lparr>bs_ptrData := x\<rparr>) = bs_at A"
  by (intro ext) (simp add: bs_at_def ptr_offset)

lemma ptr_bs_put: "bs_put (A\<lparr>bs_ptrData := x\<rparr>) = bs_put A"
  by (intro ext) (simp add: bs_put_def ptr_offset)

lemma ptr_scale_entry: "scale_entry (A\<lparr>bs_ptrData := x\<rparr>) = scale_entry A"
  by (intro ext) (simp add: scale_entry_def ptr_bs_at ptr_bs_put)

lemma ptr_update_entry: "update_entry (A\<lparr>bs_ptrData := x\<rparr>) = update_entry A"
  by (intro ext) (simp add: update_entry_def ptr_bs_at ptr_bs_put)

lemma ptr_update_col: "update_col (A\<lparr>bs_ptrData := x\<rparr>) = update_col A"
  by (intro ext) (simp add: update_col_def ptr_bs_at ptr_update_entry Let_def)

lemma ptr_factorize_step: "factorize_step (A\<lparr>bs_ptrData := x\<rparr>) = factorize_step A"
  by (intro ext) (simp add: factorize_step_def ptr_bs_at ptr_scale_entry ptr_update_col Let_def)

lemma ptr_factorizeLU: "factorizeLU (A\<lparr>bs_ptrData := x\<rparr>) = factorizeLU A"
  by (intro ext) (simp add: factorizeLU_def ptr_factorize_step)

lemma ptr_elim_row: "elim_row (A\<lparr>bs_ptrData := x\<rparr>) = elim_row A"
  by (intro ext) (simp add: elim_row_def ptr_bs_at)

lemma ptr_solve: "solve (A\<lparr>bs_ptrData := x\<rparr>) = solve A"
proof -
  have "solve_fwd (A\<lparr>bs_ptrData := x\<rparr>) = solve_fwd A"
    by (intro ext) (simp add: solve_fwd_def ptr_elim_row Let_def)
  moreover have "solve_bwd (A\<lparr>bs_ptrData := x\<rparr>) = solve_bwd A"
    by (intro ext) (simp add: solve_bwd_def ptr_elim_row ptr_bs_at Let_def)
  ultimately show ?thesis by (intro ext) (simp add: solve_def)
qed

lemma ptr_fill_row: "fill_row (A\<lparr>bs_ptrData := x\<rparr>) = fill_row A"
  by (intro ext) (simp add: fill_row_def ptr_bs_put Let_def split_def)

lemma deref_SomeD:
  assumes "deref h A = Some d"
  shows "\<exists>a. bs_ptrData A = Some a \<and> a < length h \<and> h ! a = Some d"
  using assms by (auto simp: deref_def split: option.splits if_splits)

lemma setInnerPoints_eq:
  assumes w: "waypoints (spl_N S) (spl_headP S) (spl_tailP S) inPs = Inr X"
    and d: "deref h (spl_A S) = Some d0"
  shows "setInnerPoints inPs (S, h) =
         Inr (S\<lparr>spl_b := fit_coeffs (spl_A S) (spl_N S) X d0 (spl_b S)\<rparr>,
              h[the (bs_ptrData (spl_A S)) := Some (fit_lu (spl_A S) (spl_N S) X d0 (spl_b S))])"
  by (simp add: setInnerPoints_def w d Let_def split_def fit_lu_def fit_coeffs_def)

lemma ptr_fit_lu: "fit_lu (A\<lparr>bs_ptrData := x\<rparr>) = fit_lu A"
  by (intro ext) (simp add: fit_lu_def ptr_fill_row ptr_factorizeLU)

lemma ptr_fit_coeffs: "fit_coeffs (A\<lparr>bs_ptrData := x\<rparr>) = fit_coeffs A"
  by (intro ext) (simp add: fit_coeffs_def ptr_fit_lu ptr_fill_row ptr_solve)

lemma observe_setInnerPoints:
  assumes d: "deref h (spl_A S) = Some d0" and d': "deref h' (spl_A S') = Some d0"
    and S': "S' = S\<lparr>spl_A := (spl_A S)\<lparr>bs_ptrData := p\<rparr>\<rparr>"
  shows "observe (setInnerPoints inPs (S', h')) = observe (setInnerPoints inPs (S, h))"
proof (cases "waypoints (spl_N S) (spl_headP S) (spl_tailP S) inPs")
  case (Inl e)
  then show ?thesis by (simp add: setInnerPoints_def S' observe_def)
next
  case (Inr X)
  have w': "waypoints (spl_N S') (spl_headP S') (spl_tailP S') inPs = Inr X"
    using Inr by (simp add: S')
  obtain a where a: "bs_ptrData (spl_A S) = Some a" "a < length h"
    using deref_SomeD [OF d] by blast
  obtain a' where a': "bs_ptrData (spl_A S') = Some a'" "a' < length h'"
    using deref_SomeD [OF d'] by blast
  have p: "p = Some a'" using a'(1) by (simp add: S')
  show ?thesis
    unfolding setInnerPoints_eq [OF Inr d] setInnerPoints_eq [OF w' d']
    using a a'(2) by (simp add: S' p observe_def deref_def ptr_fit_lu ptr_fit_coeffs)
qed

lemma live_append [simp]: "live (h @ [Some d]) = Suc (live h)"
  by (simp add: live_def)

lemma live_release:
  assumes "a < length h" "h ! a \<noteq> None"
  shows "Suc (live (h[a := None])) = live h"
  using assms
proof (induction h arbitrary: a)
  case Nil
  then show ?case by simp
next
  case (Cons c h)
  then show ?case by (cases a) (auto simp: live_def)
qed

lemma coeffMat_cong:
  assumes "col_of (D ! nat i) = col_of (D' ! nat i)"
    and "col_of (D ! nat (i + 1)) = col_of (D' ! nat (i + 1))"
  shows "coeffMat X D i = coeffMat X D' i"
  using assms by (simp add: coeffMat_def)

lemma fitted_tangents:
  assumes t: "fitted_table n hp tp inPs S D" and k: "0 \<le> k" "k \<le> n"
  shows "col_of (tangents S ! nat k) = col_of (D ! nat k)"
proof (cases "k < n")
  case True
  have N: "spl_N S = n" using t by (simp add: fitted_table_def)
  have "get_block (spl_b S) (k * 4) = coeffMat (hp # take (nat (n - 1)) inPs @ [tp]) D k"
    using t k True by (simp add: fitted_table_def)
  then have "get_block (spl_b S) (k * 4) ! 2 = col_of (D ! nat k)"
    by (simp add: coeffMat_def)
  moreover have "tangents S ! nat k = row_of (get_block (spl_b S) (k * 4) ! 2)"
    using k True by (simp add: tangents_def N nth_append)
  ultimately show ?thesis by simp
next
  case False
  then have kn: "k = n" using k by simp
  have N: "spl_N S = n" and Dn: "D ! nat n = [0, 0]" using t by (simp_all add: fitted_table_def)
  have "tangents S ! nat n = [0, 0]"
    using k kn by (simp add: tangents_def N nth_append)
  then show ?thesis using Dn kn by simp
qed

section \<open>The properties of the program\<close>

subsection \<open>The stretch energy\<close>

text \<open>
  What \<^verbatim>\<open>getStretchEnergy\<close> computes for any table: it reads column 1 of a block, the quadratic
  coefficient, into its variable \<^verbatim>\<open>d\<close> and column 0, the cubic one, into \<^verbatim>\<open>c\<close>, so the
  weights 4 and 12 fall on the cubic and the quadratic coefficient.
\<close>

lemma getStretchEnergy_sum:
  "getStretchEnergy S =
     (\<Sum>i\<leftarrow>[0..spl_N S - 1].
        let M = get_block (spl_b S) (i * 4); c = M ! 1; d = M ! 0
        in 4 * squaredNorm d + 12 * squaredNorm c + 12 * dot c d)"
proof -
  have "fold (\<lambda>i e. e + f i) xs a = a + (\<Sum>i\<leftarrow>xs. f i)" for f :: "int \<Rightarrow> real" and xs a
    by (induction xs arbitrary: a) simp_all
  then show ?thesis by (simp add: getStretchEnergy_def Let_def)
qed

text \<open>
  Claim C1 states that the energy is the sum of \<open>4 |c\<^sub>i|\<^sup>2 + 12 |d\<^sub>i|\<^sup>2 + 12 (c\<^sub>i \<cdot> d\<^sub>i)\<close>. For
  head \<open>(0,0)\<close>, tail \<open>(3,0)\<close>, three segments and interior points \<open>(1,0)\<close>, \<open>(2,0)\<close> the
  code returns \<open>684/25\<close>, and the stated sum is \<open>36/5\<close>.
\<close>

theorem stretch_energy_swapped:
  "case fit (0, 0) (3, 0) 3 [(1, 0), (2, 0)] default_spline of
     Inl e \<Rightarrow> False
   | Inr (S, h) \<Rightarrow> getStretchEnergy S = 684 / 25 \<and> stretch_energy_spec S = 36 / 5"
  by code_simp

subsection \<open>Colinear, evenly spaced waypoints\<close>

text \<open>
  Claim C2 states that colinear, evenly spaced waypoints give zero vectors \<open>c\<^sub>i\<close>, \<open>d\<^sub>i\<close>
  and energy 0. For head \<open>(0,0)\<close>, tail \<open>(3,0)\<close>, three segments and interior points
  \<open>(1,0)\<close>, \<open>(2,0)\<close> this is not so.
\<close>

theorem colinear_not_zero:
  "\<not> (case fit (0, 0) (3, 0) 3 [(1, 0), (2, 0)] default_spline of
        Inl e \<Rightarrow> False
      | Inr (S, h) \<Rightarrow>
          list_all (\<lambda>i. get_block (spl_b S) (i * 4) ! 1 = (0, 0) \<and>
                        get_block (spl_b S) (i * 4) ! 0 = (0, 0)) [0..2] \<and>
          getStretchEnergy S = 0)"
  by code_simp

text \<open>
  Claim C2, amended: for head \<open>(0,0)\<close>, tail \<open>(3,0)\<close>, three segments and interior points
  \<open>(1,0)\<close>, \<open>(2,0)\<close> the fit yields the tangents \<open>(0,0), (6/5,0), (6/5,0), (0,0)\<close>, the
  coefficients \<open>c = (9/5,0), (-3/5,0), (3/5,0)\<close> and \<open>d = (-4/5,0), (2/5,0), (-4/5,0)\<close>, and
  an energy that is positive, not 0: the tangents at the head and the tail are zero by
  construction, so the curve is a straight line that is not run through at constant
  speed. Nothing is stated for the input with two segments.
\<close>

theorem colinear_fit:
  "case fit (0, 0) (3, 0) 3 [(1, 0), (2, 0)] default_spline of
     Inl e \<Rightarrow> False
   | Inr (S, h) \<Rightarrow>
       map (\<lambda>i. get_block (spl_b S) (i * 4) ! 2) [0..2] = [(0, 0), (6 / 5, 0), (6 / 5, 0)] \<and>
       map (\<lambda>i. get_block (spl_b S) (i * 4) ! 1) [0..2] = [(9 / 5, 0), (- 3 / 5, 0), (3 / 5, 0)] \<and>
       map (\<lambda>i. get_block (spl_b S) (i * 4) ! 0) [0..2] = [(- 4 / 5, 0), (2 / 5, 0), (- 4 / 5, 0)] \<and>
       0 < getStretchEnergy S"
  by code_simp

text \<open>
  The input with two segments is left out of the amended claim because its fit does not
  run on the matrix the code means to build: the matrix has a single row, and the write
  \<^verbatim>\<open>A(0, 1) = 1\<close> of the branch for the first row lands on the slot of \<^verbatim>\<open>A(0, 0)\<close>, which
  held 4.
\<close>

lemma single_row_alias: "bs_N A = 1 \<Longrightarrow> bs_upperBw A = 1 \<Longrightarrow> offset A 0 1 = offset A 0 0"
  by (simp add: offset_def)

text \<open>
  So the array of the two-segment fit holds 1 on the diagonal, where the comment in
  \<^verbatim>\<open>setInnerPoints\<close> says that every diagonal entry is 4.
\<close>

lemma two_segments_diagonal:
  "case fit (0, 0) (2, 0) 2 [(1, 0)] default_spline of
     Inl e \<Rightarrow> False
   | Inr (S, h) \<Rightarrow> deref h (spl_A S) = Some [0, 1, 0]"
  by code_simp

subsection \<open>Inputs of the wrong dimension\<close>

text \<open>
  Claim C3 states that a number of interior points other than \<open>segmentCount - 1\<close>, and a
  \<open>segmentCount\<close> below 2, are reported as errors. A fit with one segment and no interior
  point returns a spline, and so does a fit with three segments and three interior
  points: it is the fit of the first two.
\<close>

theorem mismatch_processed:
  "\<not> isl (fit (0, 0) (2, 0) 1 [] default_spline) \<and>
   \<not> isl (fit (0, 0) (3, 0) 3 [(1, 0), (2, 0), (7, 7)] default_spline) \<and>
   fit (0, 0) (3, 0) 3 [(1, 0), (2, 0), (7, 7)] default_spline =
     fit (0, 0) (3, 0) 3 [(1, 0), (2, 0)] default_spline"
  by code_simp

text \<open>
  Claim C3, amended: the fitter checks no dimension. For every \<open>segmentCount \<ge> 1\<close> and at
  least \<open>segmentCount - 1\<close> interior points the fit returns a spline, and it is the fit of
  the first \<open>segmentCount - 1\<close> points: points beyond them are not read.
\<close>

theorem surplus_points_ignored:
  assumes "1 \<le> n" and "nat (n - 1) \<le> length inPs"
  shows "\<not> isl (fit hp tp n inPs Sh) \<and>
         fit hp tp n inPs Sh = fit hp tp n (take (nat (n - 1)) inPs) Sh"
proof -
  obtain S0 h0 where Sh: "Sh = (S0, h0)" by (cases Sh)
  have 1: "\<not> isl (fit hp tp n inPs Sh)"
    using fit_ok [OF assms, of hp tp S0 h0] by (auto simp: Sh)
  have w: "waypoints n a c inPs = waypoints n a c (take (nat (n - 1)) inPs)" for a c
    using assms by (simp add: waypoints_ok)
  have "setInnerPoints inPs (S, h) = setInnerPoints (take (nat (n - 1)) inPs) (S, h)"
    if "spl_N S = n" for S h
    using that by (simp add: setInnerPoints_def w)
  moreover have "spl_N S' = n" if "setConditions hp tp n Sh = Inr (S', h')" for S' h'
    using that assms(1) by (auto simp: Sh setConditions_ok)
  ultimately have "fit hp tp n inPs Sh = fit hp tp n (take (nat (n - 1)) inPs) Sh"
    by (auto simp: fit_def split: sum.splits)
  with 1 show ?thesis by simp
qed

text \<open>
  An instance: three segments, three interior points.
\<close>

theorem surplus_points_ignored_witness:
  "(1::int) \<le> 3 \<and> nat (3 - 1) \<le> length [(1, 0), (2, 0), (7, 7::real)] \<and>
   \<not> isl (fit (0, 0) (3, 0) 3 [(1, 0), (2, 0), (7, 7)] default_spline) \<and>
   fit (0, 0) (3, 0) 3 [(1, 0), (2, 0), (7, 7)] default_spline =
     fit (0, 0) (3, 0) 3 (take (nat (3 - 1)) [(1, 0), (2, 0), (7, 7)]) default_spline"
proof -
  have 1: "(1::int) \<le> 3" and 2: "nat (3 - 1) \<le> length [(1, 0), (2, 0), (7, 7::real)]" by simp_all
  show ?thesis
    using surplus_points_ignored [OF 1 2, where hp = "(0, 0)" and tp = "(3, 0)"
        and Sh = default_spline] 1 2
    by blast
qed

subsection \<open>The storage mapping\<close>

text \<open>
  Claim C4 states that the storage mapping is a bijection from the in-band index pairs
  onto the block of offsets \<open>0 .. N (p + q + 1) - 1\<close>. For \<open>N = 2\<close>, \<open>p = q = 1\<close> it is not
  onto: no in-band pair has offset 0.
\<close>

theorem offset_not_onto:
  "\<not> bij_betw (\<lambda>(i, j). offset demo_system i j) {(i, j). in_band demo_system i j}
       {0..<actualSize demo_system}"
proof
  assume "bij_betw (\<lambda>(i, j). offset demo_system i j) {(i, j). in_band demo_system i j}
       {0..<actualSize demo_system}"
  then have "(\<lambda>(i, j). offset demo_system i j) ` {(i, j). in_band demo_system i j} =
       {0..<actualSize demo_system}"
    by (simp add: bij_betw_def)
  moreover have "(0::int) \<in> {0..<actualSize demo_system}"
    by (simp add: actualSize_def demo_system_def)
  ultimately have "(0::int) \<in> (\<lambda>(i, j). offset demo_system i j) ` {(i, j). in_band demo_system i j}"
    by simp
  then obtain i j where "in_band demo_system i j" "offset demo_system i j = 0"
    by auto
  then show False by (auto simp: in_band_def offset_def demo_system_def)
qed

text \<open>
  Claim C4, amended: for every system the storage mapping \<open>(i, j) \<mapsto> (i - j + upperBw) N + j\<close>
  is injective on the in-band index pairs and maps them into the block of offsets
  \<open>0 .. N (p + q + 1) - 1\<close>. An access is this one index computation.
\<close>

theorem offset_injective:
  "inj_on (\<lambda>(i, j). offset A i j) {(i, j). in_band A i j} \<and>
   (\<lambda>(i, j). offset A i j) ` {(i, j). in_band A i j} \<subseteq> {0..<actualSize A}"
  using offset_inj [of A] offset_lower [of A] offset_upper [of A]
  by (auto simp: inj_on_def)

subsection \<open>Factorize and solve\<close>

text \<open>
  Claim C5: for every strictly diagonally dominant banded matrix \<open>A\<close> of size \<open>N\<close> with
  bandwidths \<open>p\<close>, \<open>q\<close> (dominant by rows or by columns) and every right-hand side \<open>B\<close> of
  \<open>N\<close> rows and any number \<open>m\<close> of columns, \<^verbatim>\<open>factorizeLU\<close> followed by \<^verbatim>\<open>solve\<close> yields an
  \<open>X\<close> of the same shape with \<open>A X = B\<close>, and it is the only one. No divisor of the
  substitution is zero.
\<close>

theorem factorize_solve:
  assumes "bs_wf A d" and "row_dominant A d \<or> col_dominant A d" and "shape m (bs_N A) B"
  shows "let X = solve A (factorizeLU A d) B
         in shape m (bs_N A) X \<and> is_solution A d m X B \<and>
            (\<forall>Y. shape m (bs_N A) Y \<and> is_solution A d m Y B \<longrightarrow> Y = X) \<and>
            (\<forall>i\<in>{0..<bs_N A}. bs_at A (factorizeLU A d) i i \<noteq> 0)"
proof -
  have wf': "bs_wf A (factorizeLU A d)" and lu: "lu_prod (bs_N A) (entry A d) (entry A (factorizeLU A d))"
    using dominant_lu [OF assms(1,2)] by simp_all
  have "bs_at A (factorizeLU A d) i i \<noteq> 0" if "i \<in> {0..<bs_N A}" for i
  proof -
    have i: "0 \<le> i" "i < bs_N A" using that by simp_all
    have "entry A (factorizeLU A d) i i \<noteq> 0" using lu i by (simp add: lu_prod_def)
    then show ?thesis by (simp add: entry_in_band [OF in_band_diag [OF wf' i]])
  qed
  then have piv: "\<forall>i\<in>{0..<bs_N A}. bs_at A (factorizeLU A d) i i \<noteq> 0" by blast
  have uniq: "\<forall>Y. shape m (bs_N A) Y \<and> is_solution A d m Y B \<longrightarrow>
                Y = solve A (factorizeLU A d) B"
    using solve_sound(3) [OF assms] by blast
  show ?thesis
    unfolding Let_def using solve_sound(1,2) [OF assms] uniq piv by blast
qed

text \<open>
  An instance: the matrix with rows \<open>(4, 1)\<close>, \<open>(1, 4)\<close> and two right-hand columns.
\<close>

theorem factorize_solve_witness:
  "bs_wf demo_system demo_data \<and> row_dominant demo_system demo_data \<and>
   shape 2 (bs_N demo_system) [[6, 0], [6, 0]] \<and>
   is_solution demo_system demo_data 2 (solve demo_system (factorizeLU demo_system demo_data)
     [[6, 0], [6, 0]]) [[6, 0], [6, 0]]"
proof -
  have 1: "bs_wf demo_system demo_data"
    by (simp add: bs_wf_def demo_system_def demo_data_def actualSize_def)
  have 2: "row_dominant demo_system demo_data" by code_simp
  have 3: "shape 2 (bs_N demo_system) [[6, 0], [6, 0]]"
    by (simp add: shape_def demo_system_def)
  show ?thesis
    using factorize_solve [OF 1 disjI1 [OF 2] 3] 1 2 3 by (simp add: Let_def)
qed

subsection \<open>The transposed system\<close>

text \<open>
  Claim C6: for every strictly diagonally dominant banded matrix \<open>A\<close> and every right-hand
  side \<open>B\<close>, \<^verbatim>\<open>solveAdj\<close> after \<^verbatim>\<open>factorizeLU\<close> yields the only \<open>X\<close> with \<open>A\<^sup>T X = B\<close>, and it
  is what \<^verbatim>\<open>factorizeLU\<close> and \<^verbatim>\<open>solve\<close> yield for the explicit transpose of \<open>A\<close> and the same
  \<open>B\<close>.
\<close>

theorem factorize_solveAdj:
  assumes "bs_wf A d" and "row_dominant A d \<or> col_dominant A d" and "shape m (bs_N A) B"
  shows "let X = solveAdj A (factorizeLU A d) B
         in shape m (bs_N A) X \<and> is_solution_adj A d m X B \<and>
            (\<forall>Y. shape m (bs_N A) Y \<and> is_solution_adj A d m Y B \<longrightarrow> Y = X) \<and>
            X = solve (transpose_system A)
                  (factorizeLU (transpose_system A) (transpose_data A d)) B"
proof -
  have uniq: "\<forall>Y. shape m (bs_N A) Y \<and> is_solution_adj A d m Y B \<longrightarrow>
                Y = solveAdj A (factorizeLU A d) B"
    using solveAdj_sound(3) [OF assms] by blast
  show ?thesis
    unfolding Let_def
    using solveAdj_sound(1,2) [OF assms] uniq solveAdj_transpose [OF assms, symmetric] by blast
qed

text \<open>
  An instance: the same matrix and right-hand side.
\<close>

theorem factorize_solveAdj_witness:
  "bs_wf demo_system demo_data \<and> row_dominant demo_system demo_data \<and>
   shape 2 (bs_N demo_system) [[6, 0], [6, 0]] \<and>
   solveAdj demo_system (factorizeLU demo_system demo_data) [[6, 0], [6, 0]] =
     solve (transpose_system demo_system)
       (factorizeLU (transpose_system demo_system) (transpose_data demo_system demo_data))
       [[6, 0], [6, 0]]"
proof -
  have 1: "bs_wf demo_system demo_data"
    by (simp add: bs_wf_def demo_system_def demo_data_def actualSize_def)
  have 2: "row_dominant demo_system demo_data" by code_simp
  have 3: "shape 2 (bs_N demo_system) [[6, 0], [6, 0]]"
    by (simp add: shape_def demo_system_def)
  show ?thesis
    using factorize_solveAdj [OF 1 disjI1 [OF 2] 3] 1 2 3 by (simp add: Let_def)
qed

subsection \<open>The curve meets the head and the tail\<close>

text \<open>
  Claim C7: for every head, tail, \<open>segmentCount N\<close> and interior points (here: \<open>N \<ge> 1\<close> and at
  least \<open>N - 1\<close> points, which covers \<open>N \<ge> 2\<close> with exactly \<open>N - 1\<close>) the fit returns a
  spline whose curve is at the head for segment 0, \<open>s = 0\<close>, and at the tail for segment
  \<open>N - 1\<close>, \<open>s = 1\<close>.
\<close>

theorem boundary_fidelity:
  assumes "1 \<le> n" and "nat (n - 1) \<le> length inPs"
  shows "case fit hp tp n inPs Sh of
           Inl e \<Rightarrow> False
         | Inr (S, h) \<Rightarrow>
             position (coeffs (getCurve S curve ! 0)) 0 = hp \<and>
             position (coeffs (getCurve S curve ! nat (n - 1))) 1 = tp"
proof -
  obtain S0 h0 where Sh: "Sh = (S0, h0)" by (cases Sh)
  obtain S h D where r: "fit hp tp n inPs (S0, h0) = Inr (S, h)"
    and t: "fitted_table n hp tp inPs S D"
    using fit_ok [OF assms] by blast
  let ?X = "hp # take (nat (n - 1)) inPs @ [tp]"
  have N: "spl_N S = n" using t by (simp add: fitted_table_def)
  have blk: "get_block (spl_b S) (k * 4) = coeffMat ?X D k" if "0 \<le> k" "k < n" for k
    using t that by (simp add: fitted_table_def)
  have c0: "coeffs (getCurve S curve ! 0) = coeffMat ?X D 0"
    using getCurve_nth [of 0 S curve] blk [of 0] assms(1) N by simp
  have cn: "coeffs (getCurve S curve ! nat (n - 1)) = coeffMat ?X D (n - 1)"
    using getCurve_nth [of "n - 1" S curve] blk [of "n - 1"] assms(1) N by simp
  have "?X ! nat (n - 1 + 1) = tp"
    using assms by (simp add: nth_Cons' nth_append nat_diff_distrib')
  then show ?thesis
    by (simp add: Sh r c0 cn position_start position_end)
qed

text \<open>
  An instance: three segments from \<open>(0,0)\<close> to \<open>(3,0)\<close>.
\<close>

theorem boundary_fidelity_witness:
  "(1::int) \<le> 3 \<and> nat (3 - 1) \<le> length [(1, 0), (2, 0::real)] \<and>
   (case fit (0, 0) (3, 0) 3 [(1, 0), (2, 0)] default_spline of
      Inl e \<Rightarrow> False
    | Inr (S, h) \<Rightarrow>
        position (coeffs (getCurve S [] ! 0)) 0 = (0, 0) \<and>
        position (coeffs (getCurve S [] ! nat (3 - 1))) 1 = (3, 0))"
proof -
  have 1: "(1::int) \<le> 3" and 2: "nat (3 - 1) \<le> length [(1, 0), (2, 0::real)]" by simp_all
  show ?thesis
    using boundary_fidelity [OF 1 2, where hp = "(0, 0)" and tp = "(3, 0)" and Sh = default_spline and curve = "[]"] 1 2 by blast
qed

subsection \<open>The first derivative is continuous\<close>

text \<open>
  Claim C8: for every fit and every junction \<open>i\<close> in \<open>1 .. N - 1\<close> the derivative of segment
  \<open>i - 1\<close> at \<open>s = 1\<close> is the derivative of segment \<open>i\<close> at \<open>s = 0\<close>.
\<close>

theorem tangent_continuity:
  assumes "1 \<le> n" and "nat (n - 1) \<le> length inPs"
  shows "case fit hp tp n inPs Sh of
           Inl e \<Rightarrow> False
         | Inr (S, h) \<Rightarrow>
             (\<forall>i\<in>{1..n - 1}.
                velocity (coeffs (getCurve S curve ! nat (i - 1))) 1 =
                velocity (coeffs (getCurve S curve ! nat i)) 0)"
proof -
  obtain S0 h0 where Sh: "Sh = (S0, h0)" by (cases Sh)
  obtain S h D where r: "fit hp tp n inPs (S0, h0) = Inr (S, h)"
    and t: "fitted_table n hp tp inPs S D"
    using fit_ok [OF assms] by blast
  let ?X = "hp # take (nat (n - 1)) inPs @ [tp]"
  have N: "spl_N S = n" using t by (simp add: fitted_table_def)
  have blk: "coeffs (getCurve S curve ! nat k) = coeffMat ?X D k" if "0 \<le> k" "k < n" for k
    using t that getCurve_nth [of k S curve] N by (simp add: fitted_table_def)
  have "velocity (coeffs (getCurve S curve ! nat (i - 1))) 1 =
        velocity (coeffs (getCurve S curve ! nat i)) 0" if "i \<in> {1..n - 1}" for i
    using that blk [of "i - 1"] blk [of i] by (simp add: velocity_start velocity_end)
  then show ?thesis by (simp add: Sh r)
qed

text \<open>
  An instance: three segments, two junctions.
\<close>

theorem tangent_continuity_witness:
  "(1::int) \<le> 3 \<and> nat (3 - 1) \<le> length [(1, 0), (2, 0::real)] \<and>
   (case fit (0, 0) (3, 0) 3 [(1, 0), (2, 0)] default_spline of
      Inl e \<Rightarrow> False
    | Inr (S, h) \<Rightarrow>
        (\<forall>i\<in>{1..3 - 1}.
           velocity (coeffs (getCurve S [] ! nat (i - 1))) 1 =
           velocity (coeffs (getCurve S [] ! nat i)) 0))"
proof -
  have 1: "(1::int) \<le> 3" and 2: "nat (3 - 1) \<le> length [(1, 0), (2, 0::real)]" by simp_all
  show ?thesis
    using tangent_continuity [OF 1 2, where hp = "(0, 0)" and tp = "(3, 0)" and Sh = default_spline
        and curve = "[]"] 1 2
    by blast
qed

subsection \<open>Configuring twice\<close>

text \<open>
  Claim C9: \<^verbatim>\<open>setConditions\<close> called a second time releases the array of the first call (its
  cell is free afterwards, and the number of live arrays has not grown), leaves an array
  of the length the second \<open>segmentCount\<close> asks for, all zero, and a fit that follows
  gives what a fit of a default-constructed instance with the second configuration gives:
  the same members and the same array.
\<close>

theorem reconfigure:
  assumes n1: "1 \<le> n1" and n2: "1 \<le> n2"
  shows "case setConditions hp1 tp1 n1 Sh of
           Inl e \<Rightarrow> False
         | Inr (S1, h1) \<Rightarrow>
             (case setConditions hp2 tp2 n2 (S1, h1) of
                Inl e \<Rightarrow> False
              | Inr (S2, h2) \<Rightarrow>
                  h2 ! the (bs_ptrData (spl_A S1)) = None \<and>
                  live h2 = live h1 \<and>
                  deref h2 (spl_A S2) = Some (replicate (nat ((n2 - 1) * 3)) 0) \<and>
                  observe (setInnerPoints inPs (S2, h2)) =
                    observe (fit hp2 tp2 n2 inPs default_spline))"
proof -
  obtain S0 h0 where Sh: "Sh = (S0, h0)" by (cases Sh)
  define A1 where "A1 = (spl_A S0)\<lparr>bs_N := n1 - 1, bs_lowerBw := 1, bs_upperBw := 1,
                                   bs_ptrData := Some (length h0)\<rparr>"
  define S1 where "S1 = S0\<lparr>spl_N := n1, spl_headP := hp1, spl_tailP := tp1, spl_A := A1,
                          spl_b := replicate (nat (n1 - 1)) [0, 0]\<rparr>"
  define h1 where "h1 = released (spl_A S0) h0 @ [Some (replicate (nat ((n1 - 1) * 3)) 0)]"
  define A2 where "A2 = A1\<lparr>bs_N := n2 - 1, bs_lowerBw := 1, bs_upperBw := 1,
                            bs_ptrData := Some (length h1)\<rparr>"
  define S2 where "S2 = S1\<lparr>spl_N := n2, spl_headP := hp2, spl_tailP := tp2, spl_A := A2,
                          spl_b := replicate (nat (n2 - 1)) [0, 0]\<rparr>"
  define z2 where "z2 = replicate (nat ((n2 - 1) * 3)) (0::real)"
  define h2 where "h2 = released A1 h1 @ [Some z2]"
  obtain D0 g0 where d0: "default_spline = (D0, g0)" by (cases default_spline)
  define Af where "Af = (spl_A D0)\<lparr>bs_N := n2 - 1, bs_lowerBw := 1, bs_upperBw := 1,
                                   bs_ptrData := Some (length g0)\<rparr>"
  define Sf where "Sf = D0\<lparr>spl_N := n2, spl_headP := hp2, spl_tailP := tp2, spl_A := Af,
                          spl_b := replicate (nat (n2 - 1)) [0, 0]\<rparr>"
  define hf where "hf = released (spl_A D0) g0 @ [Some z2]"
  have c1: "setConditions hp1 tp1 n1 Sh = Inr (S1, h1)"
    unfolding Sh S1_def A1_def h1_def using n1 by (rule setConditions_ok)
  have c2: "setConditions hp2 tp2 n2 (S1, h1) = Inr (S2, h2)"
    using setConditions_ok [OF n2, of hp2 tp2 S1 h1]
    by (simp add: S2_def A2_def h2_def z2_def S1_def)
  have cf: "setConditions hp2 tp2 n2 default_spline = Inr (Sf, hf)"
    using setConditions_ok [OF n2, of hp2 tp2 D0 g0]
    by (simp add: d0 Sf_def Af_def hf_def z2_def)
  have len1: "length h1 = Suc (length h0)" by (simp add: h1_def)
  have rel: "released A1 h1 = h1[length h0 := None]"
    by (simp add: released_def destroy_def A1_def)
  have "(h1[length h0 := None] @ [Some z2]) ! length h0 = None"
    by (simp add: nth_append len1)
  then have a: "h2 ! the (bs_ptrData (spl_A S1)) = None"
    unfolding h2_def rel by (simp add: S1_def A1_def)
  have "h1 ! length h0 \<noteq> None" by (simp add: h1_def nth_append)
  then have b: "live h2 = live h1"
    using live_release [of "length h0" h1] unfolding h2_def rel by (simp add: len1)
  have c: "deref h2 (spl_A S2) = Some z2"
    unfolding h2_def by (simp add: deref_def S2_def A2_def nth_append)
  have df: "deref hf (spl_A Sf) = Some z2"
    by (simp add: deref_def Sf_def Af_def hf_def nth_append)
  have eq: "S2 = Sf\<lparr>spl_A := (spl_A Sf)\<lparr>bs_ptrData := Some (length h1)\<rparr>\<rparr>"
    by (cases S0; cases D0; cases "spl_A S0"; cases "spl_A D0")
       (simp add: S2_def S1_def A2_def A1_def Sf_def Af_def)
  have "observe (setInnerPoints inPs (S2, h2)) = observe (setInnerPoints inPs (Sf, hf))"
    by (rule observe_setInnerPoints [OF df c eq])
  then have d: "observe (setInnerPoints inPs (S2, h2)) = observe (fit hp2 tp2 n2 inPs default_spline)"
    by (simp add: fit_def cf)
  show ?thesis using a b c d by (simp add: c1 c2 z2_def)
qed

text \<open>
  An instance: two segments first, then three.
\<close>

theorem reconfigure_witness:
  "(1::int) \<le> 2 \<and> (1::int) \<le> 3 \<and>
   (case setConditions (0, 0) (2, 0) 2 default_spline of
      Inl e \<Rightarrow> False
    | Inr (S1, h1) \<Rightarrow>
        (case setConditions (0, 0) (3, 0) 3 (S1, h1) of
           Inl e \<Rightarrow> False
         | Inr (S2, h2) \<Rightarrow>
             h2 ! the (bs_ptrData (spl_A S1)) = None \<and>
             live h2 = live h1 \<and>
             deref h2 (spl_A S2) = Some (replicate (nat ((3 - 1) * 3)) 0) \<and>
             observe (setInnerPoints [(1, 0), (2, 0)] (S2, h2)) =
               observe (fit (0, 0) (3, 0) 3 [(1, 0), (2, 0)] default_spline)))"
proof -
  have 1: "(1::int) \<le> 2" and 2: "(1::int) \<le> 3" by simp_all
  show ?thesis
    using reconfigure [OF 1 2, where ?hp1.0 = "(0, 0)" and ?tp1.0 = "(2, 0)" and ?hp2.0 = "(0, 0)"
        and ?tp2.0 = "(3, 0)" and Sh = default_spline and inPs = "[(1, 0), (2, 0)]"] 1 2
    by blast
qed

subsection \<open>The exported curve\<close>

text \<open>
  Claim C10: for every fitted spline and whatever the curve container holds, \<^verbatim>\<open>getCurve\<close>
  leaves in it exactly the \<open>N\<close> segments in path order, each of duration 1 and with the
  coefficient columns \<open>[d\<^sub>i, c\<^sub>i, b\<^sub>i, a\<^sub>i]\<close> that the fit derives from the waypoints and the
  tangents.
\<close>

theorem getCurve_fitted:
  assumes "1 \<le> n" and "nat (n - 1) \<le> length inPs"
  shows "case fit hp tp n inPs Sh of
           Inl e \<Rightarrow> False
         | Inr (S, h) \<Rightarrow>
             getCurve S curve =
               map (\<lambda>i. \<lparr>duration = 1,
                          coeffs = coeffMat (hp # take (nat (n - 1)) inPs @ [tp]) (tangents S) i\<rparr>)
                 [0..n - 1]"
proof -
  obtain S0 h0 where Sh: "Sh = (S0, h0)" by (cases Sh)
  obtain S h D where r: "fit hp tp n inPs (S0, h0) = Inr (S, h)"
    and t: "fitted_table n hp tp inPs S D"
    using fit_ok [OF assms] by blast
  let ?X = "hp # take (nat (n - 1)) inPs @ [tp]"
  have N: "spl_N S = n" using t by (simp add: fitted_table_def)
  have "get_block (spl_b S) (k * 4) = coeffMat ?X (tangents S) k" if "k \<in> set [0..n - 1]" for k
  proof -
    have k: "0 \<le> k" "k < n" using that by simp_all
    have "get_block (spl_b S) (k * 4) = coeffMat ?X D k"
      using t k by (simp add: fitted_table_def)
    also have "\<dots> = coeffMat ?X (tangents S) k"
      using fitted_tangents [OF t, of k] fitted_tangents [OF t, of "k + 1"] k
      by (intro coeffMat_cong) simp_all
    finally show ?thesis .
  qed
  then have "getCurve S curve = map (\<lambda>i. \<lparr>duration = 1, coeffs = coeffMat ?X (tangents S) i\<rparr>) [0..n - 1]"
    by (simp add: getCurve_map N)
  then show ?thesis by (simp add: Sh r)
qed

text \<open>
  An instance: two segments, and a container that held a segment before the call.
\<close>

theorem getCurve_fitted_witness:
  "(1::int) \<le> 2 \<and> nat (2 - 1) \<le> length [(1, 1::real)] \<and>
   (case fit (0, 0) (2, 0) 2 [(1, 1)] default_spline of
      Inl e \<Rightarrow> False
    | Inr (S, h) \<Rightarrow>
        getCurve S [\<lparr>duration = 5, coeffs = []\<rparr>] =
          map (\<lambda>i. \<lparr>duration = 1,
                     coeffs = coeffMat ((0, 0) # take (nat (2 - 1)) [(1, 1)] @ [(2, 0)]) (tangents S) i\<rparr>)
            [0..2 - 1])"
proof -
  have 1: "(1::int) \<le> 2" and 2: "nat (2 - 1) \<le> length [(1, 1::real)]" by simp_all
  show ?thesis
    using getCurve_fitted [OF 1 2, where hp = "(0, 0)" and tp = "(2, 0)" and Sh = default_spline
        and curve = "[\<lparr>duration = 5, coeffs = []\<rparr>]"] 1 2
    by blast
qed

end
